theory Spec2Isabelle
  imports Main
begin

section \<open>The TTL-LRU cache of \<^verbatim>\<open>src/lruCache.ts\<close>\<close>

subsection \<open>JavaScript's insertion-ordered \<^verbatim>\<open>Map\<close>\<close>

text \<open>
  A JavaScript \<^verbatim>\<open>Map\<close> iterates its entries in insertion order. It is modelled as
  an association list, oldest insertion first. \<^verbatim>\<open>Map.set\<close> on a key that is present
  replaces the value where the key stands; on an absent key it appends at the end.
  \<^verbatim>\<open>Map.delete\<close> removes the key and keeps the order of the others.
\<close>

type_synonym ('k, 'v) jsmap = "('k \<times> 'v) list"

definition Map_get :: "('k, 'v) jsmap \<Rightarrow> 'k \<Rightarrow> 'v option" where
  "Map_get m k = map_of m k"

definition Map_has :: "('k, 'v) jsmap \<Rightarrow> 'k \<Rightarrow> bool" where
  "Map_has m k = (k \<in> fst ` set m)"

definition Map_delete :: "('k, 'v) jsmap \<Rightarrow> 'k \<Rightarrow> ('k, 'v) jsmap" where
  "Map_delete m k = filter (\<lambda>p. fst p \<noteq> k) m"

fun Map_set :: "('k, 'v) jsmap \<Rightarrow> 'k \<Rightarrow> 'v \<Rightarrow> ('k, 'v) jsmap" where
  "Map_set [] k v = [(k, v)]"
| "Map_set (p # m) k v = (if fst p = k then (k, v) # m else p # Map_set m k v)"

definition Map_size :: "('k, 'v) jsmap \<Rightarrow> nat" where
  "Map_size m = length m"

definition Map_keys :: "('k, 'v) jsmap \<Rightarrow> 'k list" where
  "Map_keys m = map fst m"

subsection \<open>Keys\<close>

text \<open>
  \<^verbatim>\<open>LRUCache<K, V>\<close> puts no constraint on \<^verbatim>\<open>K\<close>, and a \<^verbatim>\<open>Map\<close> takes the
  value \<^verbatim>\<open>undefined\<close> as a key like any other. \<^verbatim>\<open>set\<close> compares a key with
  \<^verbatim>\<open>undefined\<close>, so a key is \<open>Undefined\<close> or another value \<open>Key k\<close>.
\<close>

datatype 'k jskey = Undefined | Key 'k

subsection \<open>The cache\<close>

text \<open>
  \<^verbatim>\<open>CacheEntry<V>\<close> and the private fields of \<^verbatim>\<open>LRUCache<K, V>\<close>. Times are
  milliseconds as \<^verbatim>\<open>Date.now()\<close> returns them, integers; \<^verbatim>\<open>maxSize\<close> and
  \<^verbatim>\<open>ttlMs\<close> are taken as integers of either sign. The fields \<^verbatim>\<open>map\<close>,
  \<^verbatim>\<open>_hits\<close> and \<^verbatim>\<open>_misses\<close> are \<open>map'\<close>, \<open>hits'\<close> and \<open>misses'\<close> here.
\<close>

record 'v cacheEntry =
  val :: 'v
  expiresAt :: int

record ('k, 'v) lruCache =
  maxSize :: int
  ttlMs :: int
  map' :: "('k, 'v cacheEntry) jsmap"
  hits' :: nat
  misses' :: nat

record cacheStats =
  hits :: nat
  misses :: nat
  size' :: nat

datatype error = Error string

text \<open>
  The constructor stores its two options and an empty map (\<open>newCache\<close>). An
  expression \<^verbatim>\<open>new LRUCache(options)\<close> yields the object or throws; the constructor has
  no \<^verbatim>\<open>throw\<close>, so \<open>constructor\<close> always yields.
\<close>

definition newCache :: "int \<Rightarrow> int \<Rightarrow> ('k, 'v) lruCache" where
  "newCache maxSize_opt ttlMs_opt =
     \<lparr>maxSize = maxSize_opt, ttlMs = ttlMs_opt, map' = [], hits' = 0, misses' = 0\<rparr>"

definition constructor :: "int \<Rightarrow> int \<Rightarrow> error + ('k, 'v) lruCache" where
  "constructor maxSize_opt ttlMs_opt = Inr (newCache maxSize_opt ttlMs_opt)"

text \<open>
  Every method reads the clock once; the reading is the parameter \<open>now\<close>.
  \<^verbatim>\<open>get\<close> returns \<open>None\<close> for \<^verbatim>\<open>undefined\<close>.
\<close>

definition get :: "('k, 'v) lruCache \<Rightarrow> 'k \<Rightarrow> int \<Rightarrow> 'v option \<times> ('k, 'v) lruCache" where
  "get c key now =
     (case Map_get (map' c) key of
        None \<Rightarrow> (None, c\<lparr>misses' := misses' c + 1\<rparr>)
      | Some entry \<Rightarrow>
          if expiresAt entry \<le> now
          then (None, c\<lparr>map' := Map_delete (map' c) key, misses' := misses' c + 1\<rparr>)
          else (Some (val entry),
                c\<lparr>map' := Map_set (Map_delete (map' c) key) key entry,
                  hits' := hits' c + 1\<rparr>))"

text \<open>
  \<^verbatim>\<open>set\<close>: \<^verbatim>\<open>this.map.keys().next().value\<close> is the first key in insertion order,
  and \<^verbatim>\<open>undefined\<close> on an empty map. \<open>firstKey\<close> is that value. The oldest key is
  deleted \<^verbatim>\<open>if (oldestKey !== undefined)\<close>: nothing is deleted on an empty map, and
  nothing either when the first key of the map is the key \<^verbatim>\<open>undefined\<close>.
\<close>

definition firstKey :: "('k jskey, 'v) jsmap \<Rightarrow> 'k jskey" where
  "firstKey m = (case Map_keys m of [] \<Rightarrow> Undefined | k # _ \<Rightarrow> k)"

definition set' :: "('k jskey, 'v) lruCache \<Rightarrow> 'k jskey \<Rightarrow> 'v \<Rightarrow> int
    \<Rightarrow> ('k jskey, 'v) lruCache" where
  "set' c key v now =
     (let expires = now + ttlMs c;
          m = (if Map_has (map' c) key then Map_delete (map' c) key
               else if maxSize c \<le> int (Map_size (map' c))
               then (let oldestKey = firstKey (map' c)
                     in if oldestKey \<noteq> Undefined then Map_delete (map' c) oldestKey
                        else map' c)
               else map' c)
      in c\<lparr>map' := Map_set m key \<lparr>val = v, expiresAt = expires\<rparr>\<rparr>)"

definition has :: "('k, 'v) lruCache \<Rightarrow> 'k \<Rightarrow> int \<Rightarrow> bool \<times> ('k, 'v) lruCache" where
  "has c key now =
     (case Map_get (map' c) key of
        None \<Rightarrow> (False, c)
      | Some entry \<Rightarrow>
          if expiresAt entry \<le> now
          then (False, c\<lparr>map' := Map_delete (map' c) key\<rparr>)
          else (True, c))"

definition clear :: "('k, 'v) lruCache \<Rightarrow> ('k, 'v) lruCache" where
  "clear c = c\<lparr>map' := [], hits' := 0, misses' := 0\<rparr>"

text \<open>
  \<^verbatim>\<open>purgeStale\<close> iterates \<^verbatim>\<open>this.map.entries()\<close> and deletes during the iteration.
  A \<^verbatim>\<open>Map\<close> iterator visits the entries that are still present, in order, so deleting
  the entry under the cursor leaves the rest of the visit as it was: the loop runs over
  the entries found at the start and deletes from the map it carries.
\<close>

fun purgeLoop :: "int \<Rightarrow> ('k, 'v cacheEntry) jsmap \<Rightarrow> ('k, 'v cacheEntry) jsmap
    \<Rightarrow> ('k, 'v cacheEntry) jsmap" where
  "purgeLoop now [] m = m"
| "purgeLoop now ((key, entry) # rest) m =
     purgeLoop now rest (if expiresAt entry \<le> now then Map_delete m key else m)"

definition purgeStale :: "('k, 'v) lruCache \<Rightarrow> int \<Rightarrow> ('k, 'v) lruCache" where
  "purgeStale c now = c\<lparr>map' := purgeLoop now (map' c) (map' c)\<rparr>"

definition stats :: "('k, 'v) lruCache \<Rightarrow> cacheStats" where
  "stats c = \<lparr>hits = hits' c, misses = misses' c, size' = Map_size (map' c)\<rparr>"

subsection \<open>Sequences of operations\<close>

datatype ('k, 'v) op =
    Get 'k int
  | Set 'k 'v int
  | Has 'k int
  | Clear
  | PurgeStale int

fun step :: "('k jskey, 'v) lruCache \<Rightarrow> ('k jskey, 'v) op \<Rightarrow> ('k jskey, 'v) lruCache" where
  "step c (Get k now) = snd (get c k now)"
| "step c (Set k v now) = set' c k v now"
| "step c (Has k now) = snd (has c k now)"
| "step c Clear = clear c"
| "step c (PurgeStale now) = purgeStale c now"

definition run :: "('k jskey, 'v) lruCache \<Rightarrow> ('k jskey, 'v) op list \<Rightarrow> ('k jskey, 'v) lruCache" where
  "run c ops = foldl step c ops"

definition keys :: "('k, 'v) lruCache \<Rightarrow> 'k list" where
  "keys c = Map_keys (map' c)"

text \<open>
  An operation touches a key when it leaves the key at the most-recently-used end:
  every \<^verbatim>\<open>set\<close>, and a \<^verbatim>\<open>get\<close> that finds a live entry. \<open>touchLog c ops\<close> lists, for
  each operation of \<open>ops\<close> run from \<open>c\<close>, the key it touches; \<open>lastTouch c ops k\<close> is
  the position in \<open>ops\<close> of the last operation that touched \<open>k\<close>.
\<close>

fun touched :: "('k jskey, 'v) lruCache \<Rightarrow> ('k jskey, 'v) op \<Rightarrow> 'k jskey option" where
  "touched c (Get k now) = (if fst (get c k now) = None then None else Some k)"
| "touched c (Set k v now) = Some k"
| "touched c (Has k now) = None"
| "touched c Clear = None"
| "touched c (PurgeStale now) = None"

fun touchLog :: "('k jskey, 'v) lruCache \<Rightarrow> ('k jskey, 'v) op list \<Rightarrow> 'k jskey option list" where
  "touchLog c [] = []"
| "touchLog c (x # ops) = touched c x # touchLog (step c x) ops"

definition lastTouch :: "('k jskey, 'v) lruCache \<Rightarrow> ('k jskey, 'v) op list \<Rightarrow> 'k jskey \<Rightarrow> nat option" where
  "lastTouch c ops k =
     (case filter (\<lambda>i. touchLog c ops ! i = Some k) (rev [0..<length ops]) of
        [] \<Rightarrow> None
      | i # _ \<Rightarrow> Some i)"

text \<open>
  \<open>olderTouch c ops a b\<close>: both keys were touched in \<open>ops\<close>, and the last touch of
  \<open>a\<close> came before the last touch of \<open>b\<close>.
\<close>

definition olderTouch :: "('k jskey, 'v) lruCache \<Rightarrow> ('k jskey, 'v) op list \<Rightarrow> 'k jskey \<Rightarrow> 'k jskey
    \<Rightarrow> bool" where
  "olderTouch c ops a b =
     (case (lastTouch c ops a, lastTouch c ops b) of
        (Some i, Some j) \<Rightarrow> i < j
      | _ \<Rightarrow> False)"

text \<open>The operations that give the entry of \<open>k\<close> a new expiry: the \<^verbatim>\<open>set\<close>s of \<open>k\<close>.\<close>

fun refreshes :: "'k \<Rightarrow> ('k, 'v) op \<Rightarrow> bool" where
  "refreshes k (Set k' v now) = (k' = k)"
| "refreshes k (Get k' now) = False"
| "refreshes k (Has k' now) = False"
| "refreshes k Clear = False"
| "refreshes k (PurgeStale now) = False"

definition live :: "int \<Rightarrow> 'k \<times> 'v cacheEntry \<Rightarrow> bool" where
  "live now p = (now < expiresAt (snd p))"

section \<open>The rate limiter of \<^verbatim>\<open>src/index.ts\<close>\<close>

definition MAX_PER_MINUTE :: nat where
  "MAX_PER_MINUTE = 10"

definition BURST_PER_10_SECONDS :: nat where
  "BURST_PER_10_SECONDS = 5"

record rateLimitState =
  last60s :: "int list"
  last10s :: "int list"

type_synonym rateLimitMap = "string \<rightharpoonup> rateLimitState"

text \<open>
  The middleware either calls \<^verbatim>\<open>next()\<close> or answers 429. The state object of an
  identity is created on its first request and mutated in place, so the pruned
  sequences are stored on a denial too.
\<close>

datatype decision = Next | Status429

definition rateLimiter :: "rateLimitMap \<Rightarrow> string \<Rightarrow> int \<Rightarrow> decision \<times> rateLimitMap" where
  "rateLimiter rateLimitMap ip now =
     (let state = (case rateLimitMap ip of
                     None \<Rightarrow> \<lparr>last60s = [], last10s = []\<rparr>
                   | Some st \<Rightarrow> st);
          state = state\<lparr>last60s := filter (\<lambda>t. now - t \<le> 60000) (last60s state)\<rparr>;
          state = state\<lparr>last10s := filter (\<lambda>t. now - t \<le> 10000) (last10s state)\<rparr>
      in if MAX_PER_MINUTE \<le> length (last60s state)
            \<or> BURST_PER_10_SECONDS \<le> length (last10s state)
         then (Status429, rateLimitMap(ip \<mapsto> state))
         else (Next, rateLimitMap(ip \<mapsto>
                 state\<lparr>last60s := last60s state @ [now], last10s := last10s state @ [now]\<rparr>)))"

text \<open>Serving a sequence of requests \<open>(identity, time)\<close>, with the decisions in order.\<close>

fun serve :: "rateLimitMap \<Rightarrow> (string \<times> int) list \<Rightarrow> decision list" where
  "serve m [] = []"
| "serve m (r # rs) =
     fst (rateLimiter m (fst r) (snd r)) # serve (snd (rateLimiter m (fst r) (snd r))) rs"

fun served :: "rateLimitMap \<Rightarrow> (string \<times> int) list \<Rightarrow> rateLimitMap" where
  "served m [] = m"
| "served m (r # rs) = served (snd (rateLimiter m (fst r) (snd r))) rs"

text \<open>The times of the requests of \<open>ip\<close> that were let through.\<close>

definition admitted :: "rateLimitMap \<Rightarrow> (string \<times> int) list \<Rightarrow> string \<Rightarrow> int list" where
  "admitted m rs ip =
     map (snd \<circ> fst) (filter (\<lambda>x. fst (fst x) = ip \<and> snd x = Next) (zip rs (serve m rs)))"

text \<open>
  The check as the specification words it: drop the timestamps older than
  \<open>now - window\<close>, deny when a pruned sequence has reached its ceiling, otherwise record
  the timestamp in both and allow.
\<close>

definition spec_prune :: "int \<Rightarrow> int \<Rightarrow> int list \<Rightarrow> int list" where
  "spec_prune window now ts = filter (\<lambda>t. \<not> t < now - window) ts"

definition spec_sequences :: "rateLimitMap \<Rightarrow> string \<Rightarrow> int list \<times> int list" where
  "spec_sequences m ip = (case m ip of None \<Rightarrow> ([], []) | Some st \<Rightarrow> (last60s st, last10s st))"

definition spec_check :: "rateLimitMap \<Rightarrow> string \<Rightarrow> int \<Rightarrow> decision \<times> int list \<times> int list" where
  "spec_check m ip now =
     (let p60 = spec_prune 60000 now (fst (spec_sequences m ip));
          p10 = spec_prune 10000 now (snd (spec_sequences m ip))
      in if 10 \<le> length p60 \<or> 5 \<le> length p10
         then (Status429, p60, p10)
         else (Next, p60 @ [now], p10 @ [now]))"

section \<open>The lookup pipeline of \<^verbatim>\<open>src/index.ts\<close>\<close>

text \<open>
  Node runs one callback at a time, each to its end, and then the continuations it made
  ready (the microtasks) before the next callback. The server is therefore a state and
  one function per callback: an incoming request, the 200 ms timer of the queue's worker,
  and the 10 s tick that purges the cache. Everything that waits is in the state.

  The module \<^verbatim>\<open>mockUsers\<close> is not among the sources; its table is the parameter of
  the initial state. The keys of \<^verbatim>\<open>userCache\<close> are numbers: the id \<open>i\<close> is the key
  \<open>Key i\<close>.
\<close>

definition CACHE_TTL_MS :: int where
  "CACHE_TTL_MS = 60000"

definition CACHE_MAX_SIZE :: int where
  "CACHE_MAX_SIZE = 1000"

record user =
  id' :: int
  name :: string
  email :: string

text \<open>
  A \<^verbatim>\<open>DbJob\<close> holds the \<^verbatim>\<open>resolve\<close> and \<^verbatim>\<open>reject\<close> of the promise that
  \<^verbatim>\<open>fetchUserFromDb\<close> made: promises are numbered, and the job holds the number.
  A pending promise lists the handlers suspended at \<^verbatim>\<open>await fetchPromise\<close>, in the order
  they began to wait, each with its request and its \<^verbatim>\<open>id\<close>.
\<close>

record dbJob =
  userId :: int
  promise :: nat

datatype outcome = Value "user option" | Failure error

datatype promiseState = Pending "(nat \<times> int) list" | Settled outcome

datatype response =
    FromCache user
  | FromDatabase user
  | NotFound
  | InvalidId
  | RateLimited
  | Unhandled error
  | InvalidPayload
  | AlreadyExists
  | Created user
  | CacheCleared

text \<open>
  \<open>queue\<close> and \<open>processing\<close> are the fields of the one \<^verbatim>\<open>DbQueue\<close>; \<open>sleeping\<close> holds
  the job of each activation of \<^verbatim>\<open>processNext\<close> that is suspended at its 200 ms timer,
  oldest timer first. \<open>responses\<close> records what each request was answered, in order;
  \<open>Unhandled\<close> stands for a handler that ended by rethrowing, which sends nothing.
  \<open>enqueued\<close> and \<open>executed\<close> are history only: the jobs in the order
  \<^verbatim>\<open>enqueue\<close> received them and in the order the worker ran them, the latter with the
  exception its \<^verbatim>\<open>try\<close> block raised, if any.
\<close>

record server =
  rateLimitMap :: rateLimitMap
  userCache :: "(int jskey, user) lruCache"
  mockUsers :: "int \<rightharpoonup> user"
  queue :: "dbJob list"
  processing :: bool
  sleeping :: "dbJob list"
  inFlightFetches :: "int \<rightharpoonup> nat"
  promises :: "nat \<Rightarrow> promiseState"
  nextPromise :: nat
  responses :: "(nat \<times> response) list"
  enqueued :: "dbJob list"
  executed :: "(dbJob \<times> error option) list"

definition respond :: "nat \<Rightarrow> response \<Rightarrow> server \<Rightarrow> server" where
  "respond rid r s = s\<lparr>responses := responses s @ [(rid, r)]\<rparr>"

subsection \<open>\<^verbatim>\<open>DbQueue\<close>\<close>

text \<open>
  \<open>workerLoop\<close> is the \<^verbatim>\<open>while\<close> loop of \<^verbatim>\<open>processNext\<close> from its test to the next
  \<^verbatim>\<open>await\<close>: it leaves with \<^verbatim>\<open>processing = false\<close> on an empty queue, and otherwise
  shifts the head job and suspends on the timer.
\<close>

definition workerLoop :: "server \<Rightarrow> server" where
  "workerLoop s =
     (case queue s of
        [] \<Rightarrow> s\<lparr>processing := False\<rparr>
      | job # rest \<Rightarrow> s\<lparr>queue := rest, sleeping := sleeping s @ [job]\<rparr>)"

definition processNext :: "server \<Rightarrow> server" where
  "processNext s = (if processing s then s else workerLoop (s\<lparr>processing := True\<rparr>))"

definition enqueue :: "server \<Rightarrow> dbJob \<Rightarrow> server" where
  "enqueue s job = processNext (s\<lparr>queue := queue s @ [job], enqueued := enqueued s @ [job]\<rparr>)"

definition fetchUserFromDb :: "server \<Rightarrow> int \<Rightarrow> nat \<times> server" where
  "fetchUserFromDb s uid =
     (let p = nextPromise s;
          s = s\<lparr>nextPromise := p + 1, promises := (promises s)(p := Pending [])\<rparr>
      in (p, enqueue s \<lparr>userId = uid, promise = p\<rparr>))"

subsection \<open>The handler of \<^verbatim>\<open>GET /users/:id\<close>\<close>

text \<open>
  The path parameter is \<open>None\<close> when \<^verbatim>\<open>Number(req.params.id)\<close> is not an integer.
\<close>

definition parseUserId :: "int option \<Rightarrow> int option" where
  "parseUserId param =
     (case param of None \<Rightarrow> None | Some i \<Rightarrow> if i \<le> 0 then None else Some i)"

text \<open>The handler from the end of \<^verbatim>\<open>await fetchPromise\<close> on, \<^verbatim>\<open>finally\<close> first.\<close>

definition afterFetch :: "server \<Rightarrow> nat \<Rightarrow> int \<Rightarrow> outcome \<Rightarrow> int \<Rightarrow> server" where
  "afterFetch s rid i out now =
     (let s = s\<lparr>inFlightFetches := (inFlightFetches s)(i := None)\<rparr>
      in case out of
           Failure err \<Rightarrow> respond rid (Unhandled err) s
         | Value None \<Rightarrow> respond rid NotFound s
         | Value (Some u) \<Rightarrow>
             (let present = fst (has (userCache s) (Key i) now);
                  c = snd (has (userCache s) (Key i) now);
                  c = (if \<not> present then set' c (Key i) u now else c)
              in respond rid (FromDatabase u) (s\<lparr>userCache := c\<rparr>)))"

definition await :: "server \<Rightarrow> nat \<Rightarrow> nat \<times> int \<Rightarrow> int \<Rightarrow> server" where
  "await s p w now =
     (case promises s p of
        Pending ws \<Rightarrow> s\<lparr>promises := (promises s)(p := Pending (ws @ [w]))\<rparr>
      | Settled out \<Rightarrow> afterFetch s (fst w) (snd w) out now)"

definition getUser :: "server \<Rightarrow> nat \<Rightarrow> int option \<Rightarrow> int \<Rightarrow> server" where
  "getUser s rid param now =
     (case parseUserId param of
        None \<Rightarrow> respond rid InvalidId s
      | Some i \<Rightarrow>
          (let cached = fst (get (userCache s) (Key i) now);
               s = s\<lparr>userCache := snd (get (userCache s) (Key i) now)\<rparr>
           in case cached of
                Some u \<Rightarrow> respond rid (FromCache u) s
              | None \<Rightarrow>
                  (case inFlightFetches s i of
                     Some p \<Rightarrow> await s p (rid, i) now
                   | None \<Rightarrow>
                       (let p = fst (fetchUserFromDb s i);
                            s = snd (fetchUserFromDb s i);
                            s = s\<lparr>inFlightFetches := (inFlightFetches s)(i \<mapsto> p)\<rparr>
                        in await s p (rid, i) now))))"

subsection \<open>The worker after its timer\<close>

text \<open>
  \<^verbatim>\<open>job.resolve\<close> and \<^verbatim>\<open>job.reject\<close> settle a pending promise and make its waiting
  handlers ready; on a settled promise they do nothing.
\<close>

definition settle :: "server \<Rightarrow> nat \<Rightarrow> outcome \<Rightarrow> (nat \<times> int) list \<times> server" where
  "settle s p out =
     (case promises s p of
        Pending ws \<Rightarrow> (ws, s\<lparr>promises := (promises s)(p := Settled out)\<rparr>)
      | Settled _ \<Rightarrow> ([], s))"

text \<open>
  The \<^verbatim>\<open>try\<close> block of the worker after its timer: it looks the user up and resolves
  with the table's entry or \<^verbatim>\<open>null\<close>. Nothing in the block raises as it stands;
  \<open>fault = Some err\<close> is the run in which it raised \<open>err\<close>, and the \<^verbatim>\<open>catch\<close> rejects.
\<close>

definition outcomeOf :: "server \<Rightarrow> dbJob \<Rightarrow> error option \<Rightarrow> outcome" where
  "outcomeOf s job fault =
     (case fault of None \<Rightarrow> Value (mockUsers s (userId job)) | Some err \<Rightarrow> Failure err)"

text \<open>
  The timer of the oldest suspended activation fires: the job is run and its promise
  settled; the loop goes on to its next \<^verbatim>\<open>await\<close>; then the handlers that waited for
  the promise run, in the order they began to wait.
\<close>

definition dbTimer :: "server \<Rightarrow> int \<Rightarrow> error option \<Rightarrow> server" where
  "dbTimer s now fault =
     (case sleeping s of
        [] \<Rightarrow> s
      | job # others \<Rightarrow>
          (let out = outcomeOf s job fault;
               s = s\<lparr>sleeping := others, executed := executed s @ [(job, fault)]\<rparr>;
               ws = fst (settle s (promise job) out);
               s = snd (settle s (promise job) out);
               s = workerLoop s
           in foldl (\<lambda>s w. afterFetch s (fst w) (snd w) out now) s ws))"

subsection \<open>The other callbacks\<close>

text \<open>
  \<^verbatim>\<open>POST /users\<close>: a field of the body is \<open>None\<close> when it is missing; \<^verbatim>\<open>0\<close> and the
  empty string are the falsy values of the present ones.
\<close>

definition postUser :: "server \<Rightarrow> nat \<Rightarrow> int option \<Rightarrow> string option \<Rightarrow> string option \<Rightarrow> int
    \<Rightarrow> server" where
  "postUser s rid body_id body_name body_email now =
     (case (body_id, body_name, body_email) of
        (Some i, Some n, Some e) \<Rightarrow>
          if i = 0 \<or> n = [] \<or> e = [] then respond rid InvalidPayload s
          else (case mockUsers s i of
                  Some _ \<Rightarrow> respond rid AlreadyExists s
                | None \<Rightarrow>
                    (let newUser = \<lparr>id' = i, name = n, email = e\<rparr>;
                         s = s\<lparr>mockUsers := (mockUsers s)(i \<mapsto> newUser)\<rparr>;
                         present = fst (has (userCache s) (Key i) now);
                         c = snd (has (userCache s) (Key i) now);
                         c = (if \<not> present then set' c (Key i) newUser now else c)
                     in respond rid (Created newUser) (s\<lparr>userCache := c\<rparr>)))
      | _ \<Rightarrow> respond rid InvalidPayload s)"

definition deleteCache :: "server \<Rightarrow> nat \<Rightarrow> server" where
  "deleteCache s rid = respond rid CacheCleared (s\<lparr>userCache := clear (userCache s)\<rparr>)"

definition purgeTick :: "server \<Rightarrow> int \<Rightarrow> server" where
  "purgeTick s now = s\<lparr>userCache := purgeStale (userCache s) now\<rparr>"

datatype request =
    GetUser "int option"
  | PostUser "int option" "string option" "string option"
  | DeleteCache

text \<open>
  A request carries a tag to tell the answers apart, the caller's identity, and the
  clock of its callback. \<^verbatim>\<open>app.use(rateLimiter)\<close> stands before every route.
\<close>

datatype event =
    Http nat string request int
  | DbTimer int "error option"
  | PurgeTick int

definition route :: "server \<Rightarrow> nat \<Rightarrow> request \<Rightarrow> int \<Rightarrow> server" where
  "route s rid req now =
     (case req of
        GetUser param \<Rightarrow> getUser s rid param now
      | PostUser body_id body_name body_email \<Rightarrow> postUser s rid body_id body_name body_email now
      | DeleteCache \<Rightarrow> deleteCache s rid)"

fun handle :: "server \<Rightarrow> event \<Rightarrow> server" where
  "handle s (Http rid ip req now) =
     (let d = fst (rateLimiter (rateLimitMap s) ip now);
          s = s\<lparr>rateLimitMap := snd (rateLimiter (rateLimitMap s) ip now)\<rparr>
      in case d of
           Status429 \<Rightarrow> respond rid RateLimited s
         | Next \<Rightarrow> route s rid req now)"
| "handle s (DbTimer now fault) = dbTimer s now fault"
| "handle s (PurgeTick now) = purgeTick s now"

definition init :: "(int \<rightharpoonup> user) \<Rightarrow> server" where
  "init users =
     \<lparr>rateLimitMap = Map.empty,
      userCache = newCache CACHE_MAX_SIZE CACHE_TTL_MS,
      mockUsers = users,
      queue = [],
      processing = False,
      sleeping = [],
      inFlightFetches = Map.empty,
      promises = (\<lambda>_. Pending []),
      nextPromise = 0,
      responses = [],
      enqueued = [],
      executed = []\<rparr>"

definition exec :: "server \<Rightarrow> event list \<Rightarrow> server" where
  "exec s evs = foldl handle s evs"

subsection \<open>Predicates on the state of the server\<close>

text \<open>The jobs that were enqueued and have not run: the worker's, then the queue.\<close>

definition pending :: "server \<Rightarrow> dbJob list" where
  "pending s = sleeping s @ queue s"

text \<open>What a handler that waited for a fetch answers, by the outcome of the fetch.\<close>

definition answer :: "outcome \<Rightarrow> response" where
  "answer out =
     (case out of
        Failure err \<Rightarrow> Unhandled err
      | Value None \<Rightarrow> NotFound
      | Value (Some u) \<Rightarrow> FromDatabase u)"

text \<open>
  Lookups of one key arriving one after the other, each with its request tag and clock,
  with no other callback in between.
\<close>

definition lookups :: "server \<Rightarrow> int \<Rightarrow> (nat \<times> int) list \<Rightarrow> server" where
  "lookups s i arrivals = foldl (\<lambda>t a. getUser t (fst a) (Some i) (snd a)) s arrivals"

text \<open>
  \<open>same_control s s'\<close>: the queue, the worker, the registry, the promises and the two
  histories are the same in both states.
\<close>

definition same_control :: "server \<Rightarrow> server \<Rightarrow> bool" where
  "same_control s s' \<longleftrightarrow>
     queue s' = queue s \<and> processing s' = processing s \<and> sleeping s' = sleeping s
     \<and> inFlightFetches s' = inFlightFetches s \<and> promises s' = promises s
     \<and> nextPromise s' = nextPromise s \<and> enqueued s' = enqueued s
     \<and> executed s' = executed s"

text \<open>
  The invariant of the queue: at most one activation of the worker is suspended;
  \<^verbatim>\<open>processing\<close> is set exactly while one is; the queue is empty while none is; and
  the jobs enqueued are those run, then those left, in order.
\<close>

definition queue_inv :: "server \<Rightarrow> bool" where
  "queue_inv s \<longleftrightarrow>
     length (sleeping s) \<le> 1
     \<and> (processing s \<longleftrightarrow> sleeping s \<noteq> [])
     \<and> (\<not> processing s \<longrightarrow> queue s = [])
     \<and> enqueued s = map fst (executed s) @ pending s"

text \<open>
  The invariant of the registry: the unfinished jobs are for distinct keys and hold
  distinct promises; each is registered under its key with its promise, which is pending
  and has at least one handler waiting, all for that key; and every registered promise
  belongs to an unfinished job of that key.
\<close>

definition flight_inv :: "server \<Rightarrow> bool" where
  "flight_inv s \<longleftrightarrow>
     distinct (map userId (pending s))
     \<and> distinct (map promise (pending s))
     \<and> (\<forall>j\<in>set (pending s).
           promise j < nextPromise s
           \<and> inFlightFetches s (userId j) = Some (promise j)
           \<and> (\<exists>ws. promises s (promise j) = Pending ws \<and> ws \<noteq> []
                  \<and> (\<forall>w\<in>set ws. snd w = userId j)))
     \<and> (\<forall>i p. inFlightFetches s i = Some p
           \<longrightarrow> (\<exists>j\<in>set (pending s). userId j = i \<and> promise j = p))"

section \<open>The cache: proofs\<close>

subsection \<open>The map operations\<close>

lemma Map_keys_delete: "Map_keys (Map_delete m k) = filter (\<lambda>x. x \<noteq> k) (Map_keys m)"
  by (simp add: Map_keys_def Map_delete_def filter_map comp_def)

lemma Map_set_absent: "k \<notin> fst ` set m \<Longrightarrow> Map_set m k v = m @ [(k, v)]"
  by (induction m) auto

lemma Map_delete_absent: "k \<notin> fst ` set (Map_delete m k)"
  by (auto simp: Map_delete_def)

lemma Map_set_delete: "Map_set (Map_delete m k) k v = Map_delete m k @ [(k, v)]"
  by (rule Map_set_absent) (rule Map_delete_absent)

lemma set_Map_delete: "set (Map_delete m k) = {p \<in> set m. fst p \<noteq> k}"
  by (auto simp: Map_delete_def)

lemma Map_delete_idem: "k \<notin> fst ` set m \<Longrightarrow> Map_delete m k = m"
  by (induction m) (auto simp: Map_delete_def)

lemma distinct_Map_delete: "distinct (map fst m) \<Longrightarrow> distinct (map fst (Map_delete m k))"
  by (simp add: Map_delete_def distinct_map_filter)

lemma distinct_Map_set_delete:
  "distinct (map fst m) \<Longrightarrow> distinct (map fst (Map_set (Map_delete m k) k v))"
  by (auto simp: Map_set_delete distinct_Map_delete set_Map_delete)

lemma Map_get_Some: "Map_get m k = Some e \<Longrightarrow> (k, e) \<in> set m"
  by (simp add: Map_get_def map_of_SomeD)

lemma Map_get_None: "Map_get m k = None \<longleftrightarrow> k \<notin> fst ` set m"
  by (simp add: Map_get_def map_of_eq_None_iff)

lemma Map_get_distinct: "distinct (map fst m) \<Longrightarrow> (k, e) \<in> set m \<Longrightarrow> Map_get m k = Some e"
  by (simp add: Map_get_def)

lemma purgeLoop_filter:
  "purgeLoop now es m =
     filter (\<lambda>p. \<not> (\<exists>e. (fst p, e) \<in> set es \<and> expiresAt e \<le> now)) m"
proof (induction es arbitrary: m)
  case Nil
  then show ?case by simp
next
  case (Cons q es)
  obtain key entry where q: "q = (key, entry)" by (cases q)
  show ?case
  proof (cases "expiresAt entry \<le> now")
    case True
    have "purgeLoop now (q # es) m = purgeLoop now es (Map_delete m key)"
      using True by (simp add: q)
    also have "\<dots> = filter (\<lambda>p. \<not> (\<exists>e. (fst p, e) \<in> set es \<and> expiresAt e \<le> now))
                       (filter (\<lambda>p. fst p \<noteq> key) m)"
      by (simp add: Cons Map_delete_def)
    also have "\<dots> = filter (\<lambda>p. \<not> (\<exists>e. (fst p, e) \<in> set (q # es) \<and> expiresAt e \<le> now)) m"
      unfolding filter_filter q using True by (intro filter_cong refl) auto
    finally show ?thesis .
  next
    case False
    have "purgeLoop now (q # es) m = purgeLoop now es m"
      using False by (simp add: q)
    also have "\<dots> = filter (\<lambda>p. \<not> (\<exists>e. (fst p, e) \<in> set (q # es) \<and> expiresAt e \<le> now)) m"
      unfolding Cons q using False by (intro filter_cong refl) auto
    finally show ?thesis .
  qed
qed

lemma distinct_fst_unique:
  "distinct (map fst m) \<Longrightarrow> (k, e) \<in> set m \<Longrightarrow> (k, e') \<in> set m \<Longrightarrow> e = e'"
  by (metis map_of_is_SomeI option.inject)

lemma purgeLoop_distinct:
  assumes "distinct (map fst m)"
  shows "purgeLoop now m m = filter (\<lambda>p. \<not> expiresAt (snd p) \<le> now) m"
  unfolding purgeLoop_filter
proof (intro filter_cong refl)
  fix p assume p: "p \<in> set m"
  then have "(fst p, snd p) \<in> set m" by simp
  then show "(\<not> (\<exists>e. (fst p, e) \<in> set m \<and> expiresAt e \<le> now)) = (\<not> expiresAt (snd p) \<le> now)"
    using distinct_fst_unique [OF assms] by blast
qed

subsection \<open>\<^verbatim>\<open>purgeStale\<close> and \<^verbatim>\<open>has\<close>\<close>

text \<open>
  Claim C10. \<^verbatim>\<open>purgeStale\<close> removes exactly the entries whose expiry has passed
  (\<open>expiresAt \<le> now\<close>): what is left is the old sequence of entries restricted to the live
  ones, so every live entry survives in its old relative order; the counters and the
  two settings are unchanged. The keys of a \<^verbatim>\<open>Map\<close> are distinct.
\<close>

theorem purgeStale_exact:
  assumes "distinct (keys c)"
  shows "map' (purgeStale c now) = filter (\<lambda>p. \<not> expiresAt (snd p) \<le> now) (map' c)
    \<and> hits' (purgeStale c now) = hits' c
    \<and> misses' (purgeStale c now) = misses' c
    \<and> maxSize (purgeStale c now) = maxSize c
    \<and> ttlMs (purgeStale c now) = ttlMs c"
  using assms by (simp add: purgeStale_def keys_def Map_keys_def purgeLoop_distinct)

lemma has_absent: "Map_get (map' c) k = None \<Longrightarrow> has c k now = (False, c)"
  by (simp add: has_def)

lemma has_stale:
  "Map_get (map' c) k = Some e \<Longrightarrow> expiresAt e \<le> now
   \<Longrightarrow> has c k now = (False, c\<lparr>map' := Map_delete (map' c) k\<rparr>)"
  by (simp add: has_def)

lemma has_live:
  "Map_get (map' c) k = Some e \<Longrightarrow> \<not> expiresAt e \<le> now \<Longrightarrow> has c k now = (True, c)"
  by (simp add: has_def)

lemma get_absent:
  "Map_get (map' c) k = None \<Longrightarrow> get c k now = (None, c\<lparr>misses' := misses' c + 1\<rparr>)"
  by (simp add: get_def)

lemma get_stale:
  "Map_get (map' c) k = Some e \<Longrightarrow> expiresAt e \<le> now
   \<Longrightarrow> get c k now = (None, c\<lparr>map' := Map_delete (map' c) k, misses' := misses' c + 1\<rparr>)"
  by (simp add: get_def)

lemma get_live:
  "Map_get (map' c) k = Some e \<Longrightarrow> \<not> expiresAt e \<le> now
   \<Longrightarrow> get c k now = (Some (val e),
         c\<lparr>map' := Map_delete (map' c) k @ [(k, e)], hits' := hits' c + 1\<rparr>)"
  by (simp add: get_def Map_set_delete)

lemma filter_live_delete_stale:
  assumes d: "distinct (map fst m)" and mem: "(k, e) \<in> set m" and st: "expiresAt e \<le> now"
  shows "filter (live now) (Map_delete m k) = filter (live now) m"
  unfolding Map_delete_def filter_filter
proof (intro filter_cong refl)
  fix p assume p: "p \<in> set m"
  show "(fst p \<noteq> k \<and> live now p) = live now p"
  proof (cases "fst p = k")
    case True
    then have "(k, snd p) \<in> set m" using p by (metis prod.collapse)
    then have "snd p = e" using distinct_fst_unique [OF d _ mem] by blast
    then show ?thesis using True st by (simp add: live_def)
  next
    case False
    then show ?thesis by simp
  qed
qed

text \<open>
  Claim C7. \<^verbatim>\<open>has(key)\<close> is true exactly when the map holds an entry for the key with
  \<open>now < expiresAt\<close>, which is when \<^verbatim>\<open>get\<close> would return a value; when it is false the
  only change is that the entry of the key, if any, is gone; the live entries keep their
  order, and \<^verbatim>\<open>_hits\<close> and \<^verbatim>\<open>_misses\<close> keep their values.
\<close>

theorem has_frame:
  assumes "distinct (keys c)"
  shows "(fst (has c k now) \<longleftrightarrow> (\<exists>e. (k, e) \<in> set (map' c) \<and> now < expiresAt e))
    \<and> (fst (has c k now) \<longleftrightarrow> fst (get c k now) \<noteq> None)
    \<and> map' (snd (has c k now)) = (if fst (has c k now) then map' c else Map_delete (map' c) k)
    \<and> filter (live now) (map' (snd (has c k now))) = filter (live now) (map' c)
    \<and> hits' (snd (has c k now)) = hits' c
    \<and> misses' (snd (has c k now)) = misses' c"
proof -
  have d: "distinct (map fst (map' c))"
    using assms by (simp add: keys_def Map_keys_def)
  show ?thesis
  proof (cases "Map_get (map' c) k")
    case None
    then have absent: "k \<notin> fst ` set (map' c)" by (simp add: Map_get_None)
    then have "\<And>e. (k, e) \<notin> set (map' c)" by force
    then show ?thesis
      by (simp add: has_absent [OF None] get_absent [OF None] Map_delete_idem [OF absent])
  next
    case (Some entry)
    have mem: "(k, entry) \<in> set (map' c)" using Some by (rule Map_get_Some)
    have uniq: "\<And>e. (k, e) \<in> set (map' c) \<Longrightarrow> e = entry"
      using distinct_fst_unique [OF d _ mem] by blast
    show ?thesis
    proof (cases "expiresAt entry \<le> now")
      case True
      have "\<not> (\<exists>e. (k, e) \<in> set (map' c) \<and> now < expiresAt e)"
        using uniq True by fastforce
      then show ?thesis
        by (simp add: has_stale [OF Some True] get_stale [OF Some True]
            filter_live_delete_stale [OF d mem True])
    next
      case False
      have "\<exists>e. (k, e) \<in> set (map' c) \<and> now < expiresAt e"
        using mem False by (intro exI [of _ entry]) simp
      then show ?thesis
        by (simp add: has_live [OF Some False] get_live [OF Some False])
    qed
  qed
qed

theorem purgeStale_exact_witness:
  "distinct (keys \<lparr>maxSize = 2, ttlMs = 10,
       map' = [(1::nat, \<lparr>val = 5::nat, expiresAt = 3\<rparr>), (2, \<lparr>val = 6, expiresAt = 20\<rparr>),
               (3, \<lparr>val = 7, expiresAt = 4\<rparr>)],
       hits' = 4, misses' = 1\<rparr>)
   \<and> map' (purgeStale \<lparr>maxSize = 2, ttlMs = 10,
       map' = [(1::nat, \<lparr>val = 5::nat, expiresAt = 3\<rparr>), (2, \<lparr>val = 6, expiresAt = 20\<rparr>),
               (3, \<lparr>val = 7, expiresAt = 4\<rparr>)],
       hits' = 4, misses' = 1\<rparr> 3)
     = [(2, \<lparr>val = 6, expiresAt = 20\<rparr>), (3, \<lparr>val = 7, expiresAt = 4\<rparr>)]
   \<and> hits' (purgeStale \<lparr>maxSize = 2, ttlMs = 10,
       map' = [(1::nat, \<lparr>val = 5::nat, expiresAt = 3\<rparr>), (2, \<lparr>val = 6, expiresAt = 20\<rparr>),
               (3, \<lparr>val = 7, expiresAt = 4\<rparr>)],
       hits' = 4, misses' = 1\<rparr> 3) = 4"
  using purgeStale_exact [of "\<lparr>maxSize = 2, ttlMs = 10,
       map' = [(1::nat, \<lparr>val = 5::nat, expiresAt = 3\<rparr>), (2, \<lparr>val = 6, expiresAt = 20\<rparr>),
               (3, \<lparr>val = 7, expiresAt = 4\<rparr>)],
       hits' = 4, misses' = 1\<rparr>" 3]
  by (simp add: keys_def Map_keys_def)

theorem has_frame_witness:
  "distinct (keys \<lparr>maxSize = 2, ttlMs = 10,
       map' = [(1::nat, \<lparr>val = 5::nat, expiresAt = 3\<rparr>), (2, \<lparr>val = 6, expiresAt = 20\<rparr>)],
       hits' = 4, misses' = 1\<rparr>)
   \<and> \<not> fst (has \<lparr>maxSize = 2, ttlMs = 10,
       map' = [(1::nat, \<lparr>val = 5::nat, expiresAt = 3\<rparr>), (2, \<lparr>val = 6, expiresAt = 20\<rparr>)],
       hits' = 4, misses' = 1\<rparr> 1 3)
   \<and> map' (snd (has \<lparr>maxSize = 2, ttlMs = 10,
       map' = [(1::nat, \<lparr>val = 5::nat, expiresAt = 3\<rparr>), (2, \<lparr>val = 6, expiresAt = 20\<rparr>)],
       hits' = 4, misses' = 1\<rparr> 1 3)) = [(2, \<lparr>val = 6, expiresAt = 20\<rparr>)]
   \<and> misses' (snd (has \<lparr>maxSize = 2, ttlMs = 10,
       map' = [(1::nat, \<lparr>val = 5::nat, expiresAt = 3\<rparr>), (2, \<lparr>val = 6, expiresAt = 20\<rparr>)],
       hits' = 4, misses' = 1\<rparr> 1 3)) = 1"
  using has_frame [of "\<lparr>maxSize = 2, ttlMs = 10,
       map' = [(1::nat, \<lparr>val = 5::nat, expiresAt = 3\<rparr>), (2, \<lparr>val = 6, expiresAt = 20\<rparr>)],
       hits' = 4, misses' = 1\<rparr>" 1 3]
  by (simp add: keys_def Map_keys_def Map_delete_def)

subsection \<open>Expiry\<close>

lemma set_Map_set: "set (Map_set m k v) \<subseteq> insert (k, v) (set m)"
  by (induction m) auto

lemma set_purgeLoop: "set (purgeLoop now es m) \<subseteq> set m"
  by (simp add: purgeLoop_filter)

lemma set_get: "set (map' (snd (get c k now))) \<subseteq> set (map' c)"
proof (cases "Map_get (map' c) k")
  case None
  then show ?thesis by (simp add: get_absent)
next
  case (Some e)
  then have "(k, e) \<in> set (map' c)" by (rule Map_get_Some)
  then show ?thesis
    by (cases "expiresAt e \<le> now")
      (auto simp: get_stale [OF Some] get_live [OF Some] set_Map_delete)
qed

lemma set_has: "set (map' (snd (has c k now))) \<subseteq> set (map' c)"
  by (auto simp: has_def set_Map_delete split: option.splits)

lemma set_set': "set (map' (set' c k v now)) \<subseteq>
    insert (k, \<lparr>val = v, expiresAt = now + ttlMs c\<rparr>) {p \<in> set (map' c). fst p \<noteq> k}"
proof (cases "Map_has (map' c) k")
  case True
  then show ?thesis
    by (auto simp: set'_def Map_set_delete set_Map_delete)
next
  case False
  then have absent: "k \<notin> fst ` set (map' c)" by (simp add: Map_has_def)
  then have sub: "set (map' c) \<subseteq> {p \<in> set (map' c). fst p \<noteq> k}" by force
  have del: "\<And>k'. set (Map_delete (map' c) k') \<subseteq> {p \<in> set (map' c). fst p \<noteq> k}"
    using sub by (auto simp: set_Map_delete)
  show ?thesis
    using False sub del [of "firstKey (map' c)"] set_Map_set [of "map' c" k]
      set_Map_set [of "Map_delete (map' c) (firstKey (map' c))" k]
    by (simp add: set'_def Let_def) blast
qed

lemma ttlMs_step: "ttlMs (step c x) = ttlMs c"
  by (cases x) (simp_all add: get_def has_def set'_def clear_def purgeStale_def Let_def
      split: option.splits)

lemma maxSize_step: "maxSize (step c x) = maxSize c"
  by (cases x) (simp_all add: get_def has_def set'_def clear_def purgeStale_def Let_def
      split: option.splits)

lemma step_keeps_expiry:
  assumes "\<not> refreshes k x" and "\<forall>e. (k, e) \<in> set (map' c) \<longrightarrow> expiresAt e = t"
  shows "\<forall>e. (k, e) \<in> set (map' (step c x)) \<longrightarrow> expiresAt e = t"
proof (cases x)
  case (Get k' now)
  then show ?thesis using assms(2) set_get [of c k' now] by auto
next
  case (Set k' v now)
  then have "k' \<noteq> k" using assms(1) by simp
  then show ?thesis using assms(2) set_set' [of c k' v now] Set by auto
next
  case (Has k' now)
  then show ?thesis using assms(2) set_has [of c k' now] by auto
next
  case Clear
  then show ?thesis by (simp add: clear_def)
next
  case (PurgeStale now)
  then show ?thesis using assms(2) set_purgeLoop [of now "map' c" "map' c"]
    by (auto simp: purgeStale_def)
qed

lemma run_snoc: "run c (ops @ [x]) = step (run c ops) x"
  by (simp add: run_def)

lemma ttlMs_run: "ttlMs (run c ops) = ttlMs c"
  by (induction ops rule: rev_induct) (simp_all add: run_snoc ttlMs_step, simp add: run_def)

lemma maxSize_run: "maxSize (run c ops) = maxSize c"
  by (induction ops rule: rev_induct) (simp_all add: run_snoc maxSize_step, simp add: run_def)

lemma run_keeps_expiry:
  assumes "\<forall>x\<in>set ops. \<not> refreshes k x" and "\<forall>e. (k, e) \<in> set (map' c) \<longrightarrow> expiresAt e = t"
  shows "\<forall>e. (k, e) \<in> set (map' (run c ops)) \<longrightarrow> expiresAt e = t"
  using assms(1)
proof (induction ops rule: rev_induct)
  case Nil
  then show ?case using assms(2) by (simp add: run_def)
next
  case (snoc x ops)
  then show ?case
    unfolding run_snoc by (intro step_keeps_expiry) auto
qed

text \<open>
  Claim C2. A key is inserted at \<open>t0\<close> into a cache with time-to-live \<open>ttlMs c\<close>; any
  operations follow, none of them a \<^verbatim>\<open>set\<close> of that key. Then a \<^verbatim>\<open>get\<close> of the key
  at any \<open>now \<ge> t0 + ttlMs c\<close>, equality included, returns \<^verbatim>\<open>undefined\<close>, adds one to
  \<^verbatim>\<open>_misses\<close>, leaves \<^verbatim>\<open>_hits\<close>, and leaves the map without the key.
\<close>

theorem ttl_expiry:
  assumes "\<forall>x\<in>set ops. \<not> refreshes k x" and "t0 + ttlMs c \<le> now"
  shows "fst (get (run (set' c k v t0) ops) k now) = None
    \<and> misses' (snd (get (run (set' c k v t0) ops) k now)) = misses' (run (set' c k v t0) ops) + 1
    \<and> hits' (snd (get (run (set' c k v t0) ops) k now)) = hits' (run (set' c k v t0) ops)
    \<and> k \<notin> set (keys (snd (get (run (set' c k v t0) ops) k now)))
    \<and> map' (snd (get (run (set' c k v t0) ops) k now)) = Map_delete (map' (run (set' c k v t0) ops)) k"
proof -
  define c2 where "c2 = run (set' c k v t0) ops"
  have "\<forall>e. (k, e) \<in> set (map' (set' c k v t0)) \<longrightarrow> expiresAt e = t0 + ttlMs c"
    using set_set' [of c k v t0] by auto
  then have exp: "\<forall>e. (k, e) \<in> set (map' c2) \<longrightarrow> expiresAt e = t0 + ttlMs c"
    unfolding c2_def using assms(1) by (intro run_keeps_expiry)
  have gone: "k \<notin> set (Map_keys (Map_delete m k))" for m :: "('a jskey, 'b cacheEntry) jsmap"
    by (simp add: Map_keys_delete)
  have "fst (get c2 k now) = None
    \<and> misses' (snd (get c2 k now)) = misses' c2 + 1
    \<and> hits' (snd (get c2 k now)) = hits' c2
    \<and> k \<notin> set (keys (snd (get c2 k now)))
    \<and> map' (snd (get c2 k now)) = Map_delete (map' c2) k"
  proof (cases "Map_get (map' c2) k")
    case None
    then have absent: "k \<notin> fst ` set (map' c2)" by (simp add: Map_get_None)
    show ?thesis
      using absent by (simp add: get_absent [OF None] Map_delete_idem [OF absent] keys_def Map_keys_def)
  next
    case (Some e)
    then have "(k, e) \<in> set (map' c2)" by (rule Map_get_Some)
    then have "expiresAt e \<le> now" using exp assms(2) by simp
    then show ?thesis
      by (simp add: get_stale [OF Some] keys_def gone)
  qed
  then show ?thesis unfolding c2_def .
qed

theorem ttl_expiry_witness:
  "list_all (\<lambda>x. \<not> refreshes (Key (1::nat)) x) [Get (Key 1) 3, Set (Key 2) (9::nat) 4, Has (Key 1) 5]
   \<and> (0::int) + ttlMs (newCache 2 10 :: (nat jskey, nat) lruCache) \<le> 10
   \<and> fst (get (run (set' (newCache 2 10) (Key (1::nat)) (5::nat) 0) [Get (Key 1) 3, Set (Key 2) 9 4, Has (Key 1) 5]) (Key 1) 10) = None
   \<and> misses' (snd (get (run (set' (newCache 2 10) (Key (1::nat)) (5::nat) 0) [Get (Key 1) 3, Set (Key 2) 9 4, Has (Key 1) 5]) (Key 1) 10))
       = misses' (run (set' (newCache 2 10) (Key (1::nat)) (5::nat) 0) [Get (Key 1) 3, Set (Key 2) 9 4, Has (Key 1) 5]) + 1
   \<and> Key 1 \<notin> set (keys (snd (get (run (set' (newCache 2 10) (Key (1::nat)) (5::nat) 0) [Get (Key 1) 3, Set (Key 2) 9 4, Has (Key 1) 5]) (Key 1) 10)))"
  using ttl_expiry [of "[Get (Key 1) 3, Set (Key 2) (9::nat) 4, Has (Key 1) 5]" "Key (1::nat)" 0 "newCache 2 10" 10 5]
  by (simp add: newCache_def)


subsection \<open>Capacity and recency\<close>

text \<open>
  Every operation keeps a subsequence of the entries, in their order, and puts the entry
  of the key it touches, if any, at the end.
\<close>

lemma step_shape:
  "\<exists>P tl'. map' (step c x) = filter P (map' c) @ tl'
     \<and> (case touched c x of
          None \<Rightarrow> tl' = []
        | Some k \<Rightarrow> (\<exists>e. tl' = [(k, e)]) \<and> (\<forall>p\<in>set (filter P (map' c)). fst p \<noteq> k))"
proof (cases x)
  case (Get k now)
  show ?thesis
  proof (cases "Map_get (map' c) k")
    case None
    have "map' (step c x) = filter (\<lambda>_. True) (map' c) @ []"
      by (simp add: Get get_absent [OF None])
    moreover have "touched c x = None" by (simp add: Get get_absent [OF None])
    ultimately show ?thesis by (intro exI [of _ "\<lambda>_. True"] exI [of _ "[]"]) simp
  next
    case (Some e)
    show ?thesis
    proof (cases "expiresAt e \<le> now")
      case True
      have "map' (step c x) = filter (\<lambda>p. fst p \<noteq> k) (map' c) @ []"
        by (simp add: Get get_stale [OF Some True] Map_delete_def)
      moreover have "touched c x = None" by (simp add: Get get_stale [OF Some True])
      ultimately show ?thesis by (intro exI [of _ "\<lambda>p. fst p \<noteq> k"] exI [of _ "[]"]) simp
    next
      case False
      have "map' (step c x) = filter (\<lambda>p. fst p \<noteq> k) (map' c) @ [(k, e)]"
        by (simp add: Get get_live [OF Some False] Map_delete_def)
      moreover have "touched c x = Some k" by (simp add: Get get_live [OF Some False])
      ultimately show ?thesis
        by (intro exI [of _ "\<lambda>p. fst p \<noteq> k"] exI [of _ "[(k, e)]"]) simp
    qed
  qed
next
  case (Set k v now)
  define e where "e = \<lparr>val = v, expiresAt = now + ttlMs c\<rparr>"
  have t: "touched c x = Some k" by (simp add: Set)
  show ?thesis
  proof (cases "Map_has (map' c) k")
    case True
    have "map' (step c x) = filter (\<lambda>p. fst p \<noteq> k) (map' c) @ [(k, e)]"
      using True by (simp add: Set set'_def Map_set_delete e_def) (simp add: Map_delete_def)
    then show ?thesis
      unfolding t by (intro exI [of _ "\<lambda>p. fst p \<noteq> k"] exI [of _ "[(k, e)]"]) simp
  next
    case False
    then have absent: "k \<notin> fst ` set (map' c)" by (simp add: Map_has_def)
    have app: "Map_set (filter Q (map' c)) k e = filter Q (map' c) @ [(k, e)]" for Q
      using absent by (intro Map_set_absent) force
    have nk: "fst p \<noteq> k" if "p \<in> set (map' c)" for p
      using absent that by force
    show ?thesis
    proof (cases "maxSize c \<le> int (Map_size (map' c))")
      case full: True
      show ?thesis
      proof (cases "firstKey (map' c) = Undefined")
        case True
        have "map' (step c x) = Map_set (filter (\<lambda>_. True) (map' c)) k e"
          using False full True by (simp add: Set set'_def e_def)
        then have "map' (step c x) = filter (\<lambda>_. True) (map' c) @ [(k, e)]"
          by (simp only: app)
        then show ?thesis
          unfolding t by (intro exI [of _ "\<lambda>_. True"] exI [of _ "[(k, e)]"]) (simp add: nk)
      next
        case oldest: False
        have "map' (step c x)
            = Map_set (filter (\<lambda>p. fst p \<noteq> firstKey (map' c)) (map' c)) k e"
          using False full oldest by (simp add: Set set'_def e_def Map_delete_def)
        then have "map' (step c x)
            = filter (\<lambda>p. fst p \<noteq> firstKey (map' c)) (map' c) @ [(k, e)]"
          by (simp add: app)
        then show ?thesis
          unfolding t
          by (intro exI [of _ "\<lambda>p. fst p \<noteq> firstKey (map' c)"] exI [of _ "[(k, e)]"])
            (simp add: nk)
      qed
    next
      case room: False
      have "map' (step c x) = Map_set (filter (\<lambda>_. True) (map' c)) k e"
        using False room by (simp add: Set set'_def e_def)
      then have "map' (step c x) = filter (\<lambda>_. True) (map' c) @ [(k, e)]"
        by (simp only: app)
      then show ?thesis
        unfolding t by (intro exI [of _ "\<lambda>_. True"] exI [of _ "[(k, e)]"]) (simp add: nk)
    qed
  qed
next
  case (Has k now)
  show ?thesis
  proof (cases "fst (has c k now)")
    case True
    then have "map' (step c x) = filter (\<lambda>_. True) (map' c) @ []"
      by (auto simp: Has has_def split: option.splits if_splits)
    then show ?thesis
      by (intro exI [of _ "\<lambda>_. True"] exI [of _ "[]"]) (simp add: Has)
  next
    case False
    then have "map' (step c x) = filter (\<lambda>p. fst p \<noteq> k) (map' c) @ []"
      by (auto simp: Has has_def Map_delete_def Map_get_None split: option.splits if_splits
          intro!: filter_True [symmetric])
    then show ?thesis
      by (intro exI [of _ "\<lambda>p. fst p \<noteq> k"] exI [of _ "[]"]) (simp add: Has)
  qed
next
  case Clear
  then show ?thesis
    by (intro exI [of _ "\<lambda>_. False"] exI [of _ "[]"]) (simp add: clear_def)
next
  case (PurgeStale now)
  then show ?thesis
    by (intro exI [of _ "\<lambda>p. \<not> (\<exists>e. (fst p, e) \<in> set (map' c) \<and> expiresAt e \<le> now)"]
        exI [of _ "[]"]) (simp add: purgeStale_def purgeLoop_filter)
qed

lemma run_Cons: "run c (x # ops) = run (step c x) ops"
  by (simp add: run_def)

lemma run_Nil: "run c [] = c"
  by (simp add: run_def)

lemma touchLog_snoc: "touchLog c (ops @ [x]) = touchLog c ops @ [touched (run c ops) x]"
  by (induction ops arbitrary: c) (simp_all add: run_Nil run_Cons)

lemma length_touchLog: "length (touchLog c ops) = length ops"
  by (induction ops arbitrary: c) simp_all

lemma lastTouch_snoc:
  "lastTouch c (ops @ [x]) k =
     (if touched (run c ops) x = Some k then Some (length ops) else lastTouch c ops k)"
proof -
  have eq: "filter (\<lambda>i. touchLog c (ops @ [x]) ! i = Some k) (rev [0..<length ops])
      = filter (\<lambda>i. touchLog c ops ! i = Some k) (rev [0..<length ops])"
    by (intro filter_cong refl) (simp add: touchLog_snoc nth_append length_touchLog)
  have last: "touchLog c (ops @ [x]) ! length ops = touched (run c ops) x"
    by (simp add: touchLog_snoc nth_append length_touchLog)
  show ?thesis
    by (simp add: lastTouch_def eq last)
qed

lemma lastTouch_less: "lastTouch c ops k = Some i \<Longrightarrow> i < length ops"
proof -
  assume a: "lastTouch c ops k = Some i"
  then obtain rest where
    "filter (\<lambda>i. touchLog c ops ! i = Some k) (rev [0..<length ops]) = i # rest"
    by (auto simp: lastTouch_def split: list.splits)
  then have "i \<in> set (filter (\<lambda>i. touchLog c ops ! i = Some k) (rev [0..<length ops]))"
    by simp
  then show ?thesis by simp
qed

text \<open>
  The key \<^verbatim>\<open>undefined\<close> enters the map only by a \<^verbatim>\<open>set\<close> of it. While it is not in
  the map, an operation leaves the map within its capacity.
\<close>

lemma keys_step:
  "fst ` set (map' (step c x)) \<subseteq> fst ` set (map' c) \<union> {k. refreshes k x}"
proof (cases x)
  case (Get k now)
  then show ?thesis using set_get [of c k now] by auto
next
  case (Set k v now)
  then show ?thesis using set_set' [of c k v now] by auto
next
  case (Has k now)
  then show ?thesis using set_has [of c k now] by auto
next
  case Clear
  then show ?thesis by (simp add: clear_def)
next
  case (PurgeStale now)
  then show ?thesis
    using set_purgeLoop [of now "map' c" "map' c"] by (auto simp: purgeStale_def)
qed

lemma step_defined:
  assumes "Undefined \<notin> fst ` set (map' c)" and "\<not> refreshes Undefined x"
  shows "Undefined \<notin> fst ` set (map' (step c x))"
  using assms keys_step [of c x] by blast

lemma run_defined:
  assumes "Undefined \<notin> fst ` set (map' c)" and "\<forall>x\<in>set ops. \<not> refreshes Undefined x"
  shows "Undefined \<notin> fst ` set (map' (run c ops))"
  using assms(2)
proof (induction ops rule: rev_induct)
  case Nil
  then show ?case using assms(1) by (simp add: run_Nil)
next
  case (snoc x ops)
  then show ?case
    unfolding run_snoc by (intro step_defined) simp_all
qed

lemma firstKey_Cons: "firstKey (q # rest) = fst q"
  by (simp add: firstKey_def Map_keys_def)

lemma step_size:
  assumes "0 < maxSize c" and "int (length (map' c)) \<le> maxSize c"
    and defined: "Undefined \<notin> fst ` set (map' c)"
  shows "int (length (map' (step c x))) \<le> maxSize c"
proof -
  have del: "length (Map_delete (map' c) k) < length (map' c)" if kin: "k \<in> fst ` set (map' c)" for k
  proof -
    obtain p where "p \<in> set (map' c)" and "\<not> fst p \<noteq> k" using kin by auto
    then show ?thesis unfolding Map_delete_def by (rule length_filter_less)
  qed
  have le: "length (Map_delete (map' c) k) \<le> length (map' c)" for k
    by (simp add: Map_delete_def)
  show ?thesis
  proof (cases x)
    case (Get k now)
    show ?thesis
    proof (cases "Map_get (map' c) k")
      case None
      then show ?thesis using assms by (simp add: Get get_absent)
    next
      case (Some e)
      then have "k \<in> fst ` set (map' c)" using Map_get_Some by force
      then have "length (Map_delete (map' c) k) < length (map' c)" by (rule del)
      then show ?thesis
        using assms(2) le [of k]
        by (cases "expiresAt e \<le> now") (simp_all add: Get get_stale [OF Some] get_live [OF Some])
    qed
  next
    case (Set k v now)
    show ?thesis
    proof (cases "Map_has (map' c) k")
      case True
      then have "length (Map_delete (map' c) k) < length (map' c)"
        by (intro del) (simp add: Map_has_def)
      then show ?thesis
        using True assms(2) by (simp add: Set set'_def Map_set_delete)
    next
      case False
      then have absent: "k \<notin> fst ` set (map' c)" by (simp add: Map_has_def)
      show ?thesis
      proof (cases "maxSize c \<le> int (Map_size (map' c))")
        case full: True
        then obtain q rest where m: "map' c = q # rest"
          using assms(1) by (cases "map' c") (simp_all add: Map_size_def)
        have fk: "firstKey (map' c) = fst q" by (simp add: m firstKey_Cons)
        have qin: "fst q \<in> fst ` set (map' c)" by (simp add: m)
        then have lt: "length (Map_delete (map' c) (fst q)) < length (map' c)" by (rule del)
        have oldest: "fst q \<noteq> Undefined" using qin defined by metis
        have "k \<notin> fst ` set (Map_delete (map' c) (fst q))"
          using absent by (auto simp: set_Map_delete)
        then have "map' (step c x)
            = Map_delete (map' c) (fst q) @ [(k, \<lparr>val = v, expiresAt = now + ttlMs c\<rparr>)]"
          using False full oldest by (simp add: Set set'_def fk Map_set_absent)
        then show ?thesis using lt assms(2) by simp
      next
        case room: False
        have "map' (step c x) = map' c @ [(k, \<lparr>val = v, expiresAt = now + ttlMs c\<rparr>)]"
          using False room absent by (simp add: Set set'_def Map_set_absent)
        then show ?thesis using room by (simp add: Map_size_def)
      qed
    qed
  next
    case (Has k now)
    then show ?thesis
      using assms(2) le [of k] by (auto simp: has_def split: option.splits)
  next
    case Clear
    then show ?thesis using assms(1) by (simp add: clear_def)
  next
    case (PurgeStale now)
    have "length (purgeLoop now (map' c) (map' c)) \<le> length (map' c)"
      by (simp add: purgeLoop_filter)
    then show ?thesis using assms(2) by (simp add: PurgeStale purgeStale_def)
  qed
qed

lemma run_size:
  assumes "0 < maxSize c" and "int (length (map' c)) \<le> maxSize c"
    and "Undefined \<notin> fst ` set (map' c)" and "\<forall>x\<in>set ops. \<not> refreshes Undefined x"
  shows "int (length (map' (run c ops))) \<le> maxSize c"
  using assms(4)
proof (induction ops rule: rev_induct)
  case Nil
  then show ?case using assms(2) by (simp add: run_Nil)
next
  case (snoc x ops)
  then have ops: "\<forall>x\<in>set ops. \<not> refreshes Undefined x" by simp
  have "Undefined \<notin> fst ` set (map' (run c ops))"
    using assms(3) ops by (rule run_defined)
  then have "int (length (map' (step (run c ops) x))) \<le> maxSize (run c ops)"
    using assms(1) snoc.IH [OF ops] by (intro step_size) (simp_all add: maxSize_run)
  then show ?case by (simp add: run_snoc maxSize_run)
qed

lemma step_distinct:
  assumes "distinct (map fst (map' c))"
  shows "distinct (map fst (map' (step c x)))"
proof -
  obtain P tl' where shape: "map' (step c x) = filter P (map' c) @ tl'"
    and t: "case touched c x of
          None \<Rightarrow> tl' = []
        | Some k \<Rightarrow> (\<exists>e. tl' = [(k, e)]) \<and> (\<forall>p\<in>set (filter P (map' c)). fst p \<noteq> k)"
    using step_shape [of c x] by blast
  have d: "distinct (map fst (filter P (map' c)))"
    using assms by (rule distinct_map_filter)
  show ?thesis
  proof (cases "touched c x")
    case None
    then show ?thesis using shape t d by simp
  next
    case (Some k)
    then obtain e where "tl' = [(k, e)]" and "\<forall>p\<in>set (filter P (map' c)). fst p \<noteq> k"
      using t by auto
    then show ?thesis using shape d by auto
  qed
qed

lemma run_distinct:
  assumes "distinct (map fst (map' c))"
  shows "distinct (map fst (map' (run c ops)))"
  by (induction ops rule: rev_induct) (simp_all add: run_Nil run_snoc assms step_distinct)

lemma recency_run:
  assumes "map' c0 = []"
  shows "sorted_wrt (\<lambda>p q. olderTouch c0 ops (fst p) (fst q)) (map' (run c0 ops))
    \<and> (\<forall>p\<in>set (map' (run c0 ops)). \<exists>i. lastTouch c0 ops (fst p) = Some i)"
proof (induction ops rule: rev_induct)
  case Nil
  then show ?case by (simp add: run_Nil assms)
next
  case (snoc x ops)
  define c where "c = run c0 ops"
  have srt: "sorted_wrt (\<lambda>p q. olderTouch c0 ops (fst p) (fst q)) (map' c)"
    and def: "\<And>p. p \<in> set (map' c) \<Longrightarrow> \<exists>i. lastTouch c0 ops (fst p) = Some i"
    using snoc by (simp_all add: c_def)
  obtain P tl' where shape: "map' (step c x) = filter P (map' c) @ tl'"
    and t: "case touched c x of
          None \<Rightarrow> tl' = []
        | Some k \<Rightarrow> (\<exists>e. tl' = [(k, e)]) \<and> (\<forall>p\<in>set (filter P (map' c)). fst p \<noteq> k)"
    using step_shape [of c x] by blast
  have srtf: "sorted_wrt (\<lambda>p q. olderTouch c0 ops (fst p) (fst q)) (filter P (map' c))"
    using srt by (rule sorted_wrt_filter)
  show ?case
  proof (cases "touched c x")
    case None
    then have same: "lastTouch c0 (ops @ [x]) k = lastTouch c0 ops k" for k
      by (simp add: lastTouch_snoc c_def)
    then have "olderTouch c0 (ops @ [x]) = olderTouch c0 ops"
      by (intro ext) (simp add: olderTouch_def)
    moreover have "map' (run c0 (ops @ [x])) = filter P (map' c)"
      using shape t None by (simp add: run_snoc c_def)
    ultimately show ?thesis using srtf def by (simp add: same)
  next
    case (Some k)
    then have t': "(\<exists>e. tl' = [(k, e)]) \<and> (\<forall>p\<in>set (filter P (map' c)). fst p \<noteq> k)"
      using t by simp
    then obtain e where tl: "tl' = [(k, e)]" by blast
    have nk: "fst p \<noteq> k" if "p \<in> set (filter P (map' c))" for p
      using t' that by blast
    have new: "lastTouch c0 (ops @ [x]) k = Some (length ops)"
      using Some by (simp add: lastTouch_snoc c_def)
    have old: "lastTouch c0 (ops @ [x]) k' = lastTouch c0 ops k'" if "k' \<noteq> k" for k'
      using Some that by (simp add: lastTouch_snoc c_def)
    have m: "map' (run c0 (ops @ [x])) = filter P (map' c) @ [(k, e)]"
      using shape tl by (simp add: run_snoc c_def)
    have keep: "olderTouch c0 (ops @ [x]) (fst p) (fst q)"
      if "p \<in> set (filter P (map' c))" "q \<in> set (filter P (map' c))"
        "olderTouch c0 ops (fst p) (fst q)" for p q
      using that nk by (simp add: olderTouch_def old)
    have s1: "sorted_wrt (\<lambda>p q. olderTouch c0 (ops @ [x]) (fst p) (fst q)) (filter P (map' c))"
      using srtf keep by (rule sorted_wrt_mono_rel [rotated])
    have s2: "olderTouch c0 (ops @ [x]) (fst p) k" if p: "p \<in> set (filter P (map' c))" for p
    proof -
      have "p \<in> set (map' c)" using p by simp
      then obtain i where i: "lastTouch c0 ops (fst p) = Some i" using def by blast
      then have "i < length ops" by (rule lastTouch_less)
      then show ?thesis using i nk [OF p] by (simp add: olderTouch_def old new)
    qed
    have s3: "\<exists>i. lastTouch c0 (ops @ [x]) (fst p) = Some i"
      if p: "p \<in> set (filter P (map' c))" for p
    proof -
      have "p \<in> set (map' c)" using p by simp
      then show ?thesis using def [of p] nk [OF p] by (simp add: old)
    qed
    show ?thesis
      unfolding m using s1 s2 s3 new by (auto simp: sorted_wrt_append)
  qed
qed

lemma evict_oldest:
  assumes d: "distinct (map fst (map' c))" and m: "map' c = q # rest"
    and oldest: "fst q \<noteq> Undefined"
    and new: "k \<notin> set (keys c)" and full: "maxSize c \<le> int (Map_size (map' c))"
  shows "map' (set' c k v now) = rest @ [(k, \<lparr>val = v, expiresAt = now + ttlMs c\<rparr>)]"
proof -
  have absent: "k \<notin> fst ` set (map' c)" using new by (simp add: keys_def Map_keys_def)
  have "fst q \<notin> fst ` set rest" using d by (simp add: m)
  then have "Map_delete (map' c) (fst q) = rest"
    by (simp add: m Map_delete_def Map_delete_idem [unfolded Map_delete_def])
  moreover have "k \<notin> fst ` set rest" using absent by (simp add: m)
  moreover have "firstKey (map' c) = fst q" by (simp add: m firstKey_Cons)
  ultimately show ?thesis
    using absent full oldest by (simp add: set'_def Map_has_def Map_set_absent)
qed

text \<open>
  While no \<^verbatim>\<open>set\<close> takes the key \<^verbatim>\<open>undefined\<close>, a cache constructed with a positive
  \<^verbatim>\<open>maxSize\<close> holds at most that many entries, and a \<^verbatim>\<open>set\<close> of a new key at
  capacity evicts the first key of the map, which is the least recently touched.
\<close>

lemma lru_bound_defined_keys:
  assumes "0 < m" and "\<forall>x\<in>set ops. \<not> refreshes Undefined x"
  shows "int (Map_size (map' (run (newCache m t) ops))) \<le> m
    \<and> (\<forall>k v now. k \<notin> set (keys (run (newCache m t) ops))
          \<and> m \<le> int (Map_size (map' (run (newCache m t) ops)))
        \<longrightarrow> keys (set' (run (newCache m t) ops) k v now) = tl (keys (run (newCache m t) ops)) @ [k]
          \<and> hd (keys (run (newCache m t) ops)) \<notin> set (keys (set' (run (newCache m t) ops) k v now))
          \<and> (\<forall>k'\<in>set (tl (keys (run (newCache m t) ops))).
                olderTouch (newCache m t) ops (hd (keys (run (newCache m t) ops))) k'))"
proof -
  define c0 :: "('a jskey, 'b) lruCache" where "c0 = newCache m t"
  define c where "c = run c0 ops"
  have e0: "map' c0 = []" and m0: "maxSize c0 = m" by (simp_all add: c0_def newCache_def)
  have mc: "maxSize c = m" by (simp add: c_def maxSize_run m0)
  have size: "int (length (map' c)) \<le> m"
    using run_size [of c0 ops] assms by (simp add: c_def e0 m0)
  have defined: "Undefined \<notin> fst ` set (map' c)"
    unfolding c_def using assms(2) by (intro run_defined) (simp_all add: e0)
  have d: "distinct (map fst (map' c))"
    unfolding c_def by (intro run_distinct) (simp add: e0)
  have srt: "sorted_wrt (\<lambda>p q. olderTouch c0 ops (fst p) (fst q)) (map' c)"
    using recency_run [OF e0, of ops] by (simp add: c_def)
  have ev: "keys (set' c k v now) = tl (keys c) @ [k]
      \<and> hd (keys c) \<notin> set (keys (set' c k v now))
      \<and> (\<forall>k'\<in>set (tl (keys c)). olderTouch c0 ops (hd (keys c)) k')"
    if new: "k \<notin> set (keys c)" and full: "m \<le> int (Map_size (map' c))" for k v now
  proof -
    obtain q rest where qr: "map' c = q # rest"
      using full assms(1) by (cases "map' c") (simp_all add: Map_size_def)
    have full': "maxSize c \<le> int (Map_size (map' c))" using full by (simp add: mc)
    have "fst q \<in> fst ` set (map' c)" by (simp add: qr)
    then have oldest: "fst q \<noteq> Undefined" using defined by metis
    have after: "map' (set' c k v now) = rest @ [(k, \<lparr>val = v, expiresAt = now + ttlMs c\<rparr>)]"
      using d qr oldest new full' by (rule evict_oldest)
    have k1: "keys (set' c k v now) = tl (keys c) @ [k]"
      by (simp add: keys_def Map_keys_def after qr)
    have "fst q \<noteq> k" using new by (auto simp: keys_def Map_keys_def qr)
    moreover have "fst q \<notin> fst ` set rest" using d by (simp add: qr)
    ultimately have k2: "hd (keys c) \<notin> set (keys (set' c k v now))"
      by (simp add: keys_def Map_keys_def after qr)
    have "\<forall>p\<in>set rest. olderTouch c0 ops (fst q) (fst p)"
      using srt by (simp add: qr)
    then have k3: "\<forall>k'\<in>set (tl (keys c)). olderTouch c0 ops (hd (keys c)) k'"
      by (auto simp: keys_def Map_keys_def qr)
    show ?thesis using k1 k2 k3 by simp
  qed
  show ?thesis
    using size ev unfolding c_def c0_def Map_size_def by blast
qed

text \<open>
  Claim C1 says that the cache never holds more entries than its maximum. The code
  evicts the oldest key \<^verbatim>\<open>if (oldestKey !== undefined)\<close>, under the comment that it
  evicts the least recently used: once the key \<^verbatim>\<open>undefined\<close> is the oldest, nothing
  is evicted any more and every new key adds an entry. With \<^verbatim>\<open>maxSize\<close> 1, after
  \<^verbatim>\<open>set(undefined, a)\<close>, \<^verbatim>\<open>set(5, b)\<close> and \<^verbatim>\<open>set(6, c)\<close> the cache holds three entries.
\<close>

theorem lru_capacity_undefined_key:
  "maxSize (run (newCache 1 1000) [Set Undefined ''a'' 0, Set (Key (5::nat)) ''b'' 1,
       Set (Key 6) ''c'' 2]) = 1
   \<and> keys (run (newCache 1 1000) [Set Undefined ''a'' 0, Set (Key (5::nat)) ''b'' 1,
       Set (Key 6) ''c'' 2]) = [Undefined, Key 5, Key 6]
   \<and> size' (stats (run (newCache 1 1000) [Set Undefined ''a'' 0, Set (Key (5::nat)) ''b'' 1,
       Set (Key 6) ''c'' 2])) = 3"
  by (simp add: run_def newCache_def keys_def Map_keys_def set'_def Map_has_def Map_size_def
      firstKey_def stats_def Let_def)

subsection \<open>The constructor and the recency example\<close>

text \<open>
  Claim C8 says that the constructor rejects a non-positive \<^verbatim>\<open>maxSize\<close> or
  \<^verbatim>\<open>ttlMs\<close>. It does not: it has no check.
\<close>

theorem constructor_accepts_nonpositive:
  "(constructor (- 5) 0 :: error + (nat jskey, nat) lruCache)
     = Inr \<lparr>maxSize = - 5, ttlMs = 0, map' = [], hits' = 0, misses' = 0\<rparr>"
  by (simp add: constructor_def newCache_def)

text \<open>
  Claim C8, amended. The constructor checks nothing: for every \<^verbatim>\<open>maxSize\<close> and
  \<^verbatim>\<open>ttlMs\<close> it yields a cache that stores the two values as given, is empty and has
  zero counters, and that cache accepts a \<^verbatim>\<open>set\<close>.
\<close>

theorem constructor_total:
  "(constructor m t :: error + ('k, 'v) lruCache) = Inr (newCache m t)
    \<and> maxSize (newCache m t :: ('k, 'v) lruCache) = m
    \<and> ttlMs (newCache m t :: ('k, 'v) lruCache) = t
    \<and> keys (newCache m t :: ('k, 'v) lruCache) = []
    \<and> stats (newCache m t :: ('k, 'v) lruCache) = \<lparr>hits = 0, misses = 0, size' = 0\<rparr>
    \<and> keys (set' (newCache m t :: ('k jskey, 'v) lruCache) k v now) = [k]"
  by (simp add: constructor_def newCache_def keys_def Map_keys_def stats_def Map_size_def
      set'_def Map_has_def firstKey_def Let_def)




section \<open>The rate limiter: proofs\<close>

lemma prune_eq: "filter (\<lambda>t. now - t \<le> w) ts = spec_prune w now ts"
  unfolding spec_prune_def by (intro filter_cong refl) auto

lemma state_update_all:
  "(a :: rateLimitState)\<lparr>last60s := x, last10s := y\<rparr> = \<lparr>last60s = x, last10s = y\<rparr>"
  by (cases a) simp

lemma rateLimiter_spec:
  "rateLimiter m ip now =
     (fst (spec_check m ip now),
      m(ip \<mapsto> \<lparr>last60s = fst (snd (spec_check m ip now)),
                last10s = snd (snd (spec_check m ip now))\<rparr>))"
  by (cases "m ip")
    (simp_all add: rateLimiter_def spec_check_def spec_sequences_def prune_eq Let_def
      MAX_PER_MINUTE_def BURST_PER_10_SECONDS_def state_update_all)

lemma sequences_same: "spec_sequences (snd (rateLimiter m ip now)) ip = snd (spec_check m ip now)"
  by (simp add: rateLimiter_spec spec_sequences_def)

lemma sequences_other:
  "ip' \<noteq> ip \<Longrightarrow> spec_sequences (snd (rateLimiter m ip now)) ip' = spec_sequences m ip'"
  by (simp add: rateLimiter_spec spec_sequences_def)

lemma served_snoc:
  "served m (rs @ [r]) = snd (rateLimiter (served m rs) (fst r) (snd r))"
  by (induction rs arbitrary: m) simp_all

lemma serve_snoc:
  "serve m (rs @ [r]) = serve m rs @ [fst (rateLimiter (served m rs) (fst r) (snd r))]"
  by (induction rs arbitrary: m) simp_all

lemma length_serve: "length (serve m rs) = length rs"
  by (induction rs arbitrary: m) simp_all

lemma admitted_snoc:
  "admitted m (rs @ [r]) ip =
     admitted m rs ip @
       (if fst r = ip \<and> fst (rateLimiter (served m rs) (fst r) (snd r)) = Next
        then [snd r] else [])"
  by (auto simp: admitted_def serve_snoc length_serve)

lemma admitted_Nil: "admitted m [] ip = []"
  by (simp add: admitted_def)

lemma window_step:
  fixes T now w :: int
  assumes "filter (\<lambda>t. T - t \<le> w) S = filter (\<lambda>t. T - t \<le> w) A" and "T \<le> now"
  shows "filter (\<lambda>t. now - t \<le> w) (filter (\<lambda>t. T - t \<le> w) S @ xs)
       = filter (\<lambda>t. now - t \<le> w) (A @ xs)"
proof -
  have "filter (\<lambda>t. now - t \<le> w) (filter (\<lambda>t. T - t \<le> w) A) = filter (\<lambda>t. now - t \<le> w) A"
    unfolding filter_filter using assms(2) by (intro filter_cong refl) auto
  then show ?thesis by (simp add: assms(1))
qed

lemma spec_check_shape:
  "snd (spec_check m ip T) =
     (filter (\<lambda>t. T - t \<le> 60000) (fst (spec_sequences m ip))
        @ (if fst (spec_check m ip T) = Next then [T] else []),
      filter (\<lambda>t. T - t \<le> 10000) (snd (spec_sequences m ip))
        @ (if fst (spec_check m ip T) = Next then [T] else []))"
  by (simp add: spec_check_def prune_eq Let_def)

lemma history:
  assumes "sorted (map snd rs)"
  shows "\<forall>now. (\<forall>r\<in>set rs. snd r \<le> now) \<longrightarrow>
      filter (\<lambda>t. now - t \<le> 60000) (fst (spec_sequences (served Map.empty rs) ip))
        = filter (\<lambda>t. now - t \<le> 60000) (admitted Map.empty rs ip)
    \<and> filter (\<lambda>t. now - t \<le> 10000) (snd (spec_sequences (served Map.empty rs) ip))
        = filter (\<lambda>t. now - t \<le> 10000) (admitted Map.empty rs ip)"
  using assms
proof (induction rs rule: rev_induct)
  case Nil
  then show ?case by (simp add: admitted_Nil spec_sequences_def)
next
  case (snoc r rs)
  define T where "T = snd r"
  define m where "m = served Map.empty rs"
  have srt: "sorted (map snd rs)" and before: "\<forall>x\<in>set rs. snd x \<le> T"
    using snoc.prems by (auto simp: sorted_append T_def)
  note IH = snoc.IH [OF srt, THEN spec, THEN mp]
  show ?case
  proof (intro allI impI)
    fix now assume "\<forall>x\<in>set (rs @ [r]). snd x \<le> now"
    then have Tnow: "T \<le> now" and bnow: "\<forall>x\<in>set rs. snd x \<le> now"
      by (simp_all add: T_def)
    show "filter (\<lambda>t. now - t \<le> 60000) (fst (spec_sequences (served Map.empty (rs @ [r])) ip))
        = filter (\<lambda>t. now - t \<le> 60000) (admitted Map.empty (rs @ [r]) ip)
      \<and> filter (\<lambda>t. now - t \<le> 10000) (snd (spec_sequences (served Map.empty (rs @ [r])) ip))
        = filter (\<lambda>t. now - t \<le> 10000) (admitted Map.empty (rs @ [r]) ip)"
    proof (cases "fst r = ip")
      case True
      define xs where "xs = (if fst (spec_check m ip T) = Next then [T] else [])"
      have seq: "spec_sequences (served Map.empty (rs @ [r])) ip =
          (filter (\<lambda>t. T - t \<le> 60000) (fst (spec_sequences m ip)) @ xs,
           filter (\<lambda>t. T - t \<le> 10000) (snd (spec_sequences m ip)) @ xs)"
        using True
        by (simp add: served_snoc sequences_same spec_check_shape xs_def m_def [symmetric]
            T_def [symmetric])
      have adm: "admitted Map.empty (rs @ [r]) ip = admitted Map.empty rs ip @ xs"
        using True
        by (simp add: admitted_snoc rateLimiter_spec xs_def m_def [symmetric] T_def [symmetric])
      have a60: "filter (\<lambda>t. T - t \<le> 60000) (fst (spec_sequences m ip))
          = filter (\<lambda>t. T - t \<le> 60000) (admitted Map.empty rs ip)"
        and a10: "filter (\<lambda>t. T - t \<le> 10000) (snd (spec_sequences m ip))
          = filter (\<lambda>t. T - t \<le> 10000) (admitted Map.empty rs ip)"
        using IH [OF before] by (simp_all add: m_def)
      show ?thesis
        unfolding seq adm fst_conv snd_conv
        using window_step [OF a60 Tnow] window_step [OF a10 Tnow] by simp
    next
      case False
      then have "spec_sequences (served Map.empty (rs @ [r])) ip
          = spec_sequences (served Map.empty rs) ip"
        by (simp add: served_snoc sequences_other)
      moreover have "admitted Map.empty (rs @ [r]) ip = admitted Map.empty rs ip"
        using False by (simp add: admitted_snoc)
      ultimately show ?thesis using IH [OF bnow] by simp
    qed
  qed
qed

text \<open>
  Claim C3. A check prunes the two sequences of the identity to the timestamps not older
  than \<open>now - 60000\<close> and \<open>now - 10000\<close>, denies exactly when the pruned 60 s sequence
  has at least 10 entries or the pruned 10 s one at least 5, and otherwise appends
  \<open>now\<close> to both and allows: the middleware computes what \<open>spec_check\<close> says and stores
  the sequences it returns. Consequently, when requests are served in the order of their
  clock from an empty table, a request is allowed exactly when fewer than 10 requests of
  its identity were allowed in the last 60 s and fewer than 5 in the last 10 s: the 11th
  within 60 s is denied, and so is the 6th within 10 s, whatever the 60 s count.
\<close>

theorem rate_limiter_windows:
  "rateLimiter m ip now =
     (fst (spec_check m ip now),
      m(ip \<mapsto> \<lparr>last60s = fst (snd (spec_check m ip now)),
                last10s = snd (snd (spec_check m ip now))\<rparr>))
   \<and> (sorted (map snd rs) \<and> (\<forall>r\<in>set rs. snd r \<le> now) \<longrightarrow>
        (fst (rateLimiter (served Map.empty rs) ip now) = Next \<longleftrightarrow>
           length (filter (\<lambda>t. now - 60000 \<le> t) (admitted Map.empty rs ip)) < 10
           \<and> length (filter (\<lambda>t. now - 10000 \<le> t) (admitted Map.empty rs ip)) < 5))"
proof (intro conjI impI)
  show "rateLimiter m ip now =
     (fst (spec_check m ip now),
      m(ip \<mapsto> \<lparr>last60s = fst (snd (spec_check m ip now)),
                last10s = snd (snd (spec_check m ip now))\<rparr>))"
    by (rule rateLimiter_spec)
next
  assume a: "sorted (map snd rs) \<and> (\<forall>r\<in>set rs. snd r \<le> now)"
  then have h: "filter (\<lambda>t. now - t \<le> 60000) (fst (spec_sequences (served Map.empty rs) ip))
        = filter (\<lambda>t. now - t \<le> 60000) (admitted Map.empty rs ip)
    \<and> filter (\<lambda>t. now - t \<le> 10000) (snd (spec_sequences (served Map.empty rs) ip))
        = filter (\<lambda>t. now - t \<le> 10000) (admitted Map.empty rs ip)"
    using history [of rs ip] by blast
  have w: "filter (\<lambda>t. now - w \<le> t) ts = filter (\<lambda>t. now - t \<le> w) ts" for w :: int and ts
    by (intro filter_cong refl) auto
  show "fst (rateLimiter (served Map.empty rs) ip now) = Next \<longleftrightarrow>
           length (filter (\<lambda>t. now - 60000 \<le> t) (admitted Map.empty rs ip)) < 10
           \<and> length (filter (\<lambda>t. now - 10000 \<le> t) (admitted Map.empty rs ip)) < 5"
    unfolding w using h
    by (auto simp: rateLimiter_spec spec_check_def Let_def prune_eq [symmetric])
qed

lemma not_Next: "d \<noteq> Next \<longleftrightarrow> d = Status429"
  by (cases d) simp_all

lemma serve10:
  "serve Map.empty [(''a'', 0), (''a'', 6000), (''a'', 12000), (''a'', 18000), (''a'', 24000),
       (''a'', 30000), (''a'', 36000), (''a'', 42000), (''a'', 48000), (''a'', 54000)]
     = [Next, Next, Next, Next, Next, Next, Next, Next, Next, Next]"
  by (simp add: rateLimiter_def Let_def MAX_PER_MINUTE_def BURST_PER_10_SECONDS_def)

lemma serve5:
  "serve Map.empty [(''a'', 0), (''b'', 1), (''a'', 2000), (''a'', 4000), (''a'', 6000), (''a'', 8000)]
     = [Next, Next, Next, Next, Next, Next]"
  by (simp add: rateLimiter_def Let_def MAX_PER_MINUTE_def BURST_PER_10_SECONDS_def)

lemma admitted10:
  "admitted Map.empty [(''a'', 0), (''a'', 6000), (''a'', 12000), (''a'', 18000), (''a'', 24000),
       (''a'', 30000), (''a'', 36000), (''a'', 42000), (''a'', 48000), (''a'', 54000)] ''a''
     = [0, 6000, 12000, 18000, 24000, 30000, 36000, 42000, 48000, 54000]"
  unfolding admitted_def serve10 by simp

lemma admitted5:
  "admitted Map.empty [(''a'', 0), (''b'', 1), (''a'', 2000), (''a'', 4000), (''a'', 6000),
       (''a'', 8000)] ''a'' = [0, 2000, 4000, 6000, 8000]"
  "admitted Map.empty [(''a'', 0), (''b'', 1), (''a'', 2000), (''a'', 4000), (''a'', 6000),
       (''a'', 8000)] ''b'' = [1]"
  unfolding admitted_def serve5 by simp_all

theorem rate_limiter_windows_witness:
  "sorted (map snd [(''a'', 0::int), (''a'', 6000), (''a'', 12000), (''a'', 18000), (''a'', 24000),
       (''a'', 30000), (''a'', 36000), (''a'', 42000), (''a'', 48000), (''a'', 54000)])
   \<and> serve Map.empty [(''a'', 0), (''a'', 6000), (''a'', 12000), (''a'', 18000), (''a'', 24000),
       (''a'', 30000), (''a'', 36000), (''a'', 42000), (''a'', 48000), (''a'', 54000)]
     = [Next, Next, Next, Next, Next, Next, Next, Next, Next, Next]
   \<and> fst (rateLimiter (served Map.empty [(''a'', 0), (''a'', 6000), (''a'', 12000), (''a'', 18000),
       (''a'', 24000), (''a'', 30000), (''a'', 36000), (''a'', 42000), (''a'', 48000),
       (''a'', 54000)]) ''a'' 60000) = Status429
   \<and> fst (rateLimiter (served Map.empty [(''a'', 0), (''a'', 6000), (''a'', 12000), (''a'', 18000),
       (''a'', 24000), (''a'', 30000), (''a'', 36000), (''a'', 42000), (''a'', 48000),
       (''a'', 54000)]) ''a'' 60001) = Next
   \<and> serve Map.empty [(''a'', 0), (''b'', 1), (''a'', 2000), (''a'', 4000), (''a'', 6000),
       (''a'', 8000)] = [Next, Next, Next, Next, Next, Next]
   \<and> fst (rateLimiter (served Map.empty [(''a'', 0), (''b'', 1), (''a'', 2000), (''a'', 4000),
       (''a'', 6000), (''a'', 8000)]) ''a'' 10000) = Status429
   \<and> fst (rateLimiter (served Map.empty [(''a'', 0), (''b'', 1), (''a'', 2000), (''a'', 4000),
       (''a'', 6000), (''a'', 8000)]) ''b'' 10000) = Next"
proof -
  note T10 = rate_limiter_windows [of Map.empty "''a''" _ "[(''a'', 0), (''a'', 6000),
       (''a'', 12000), (''a'', 18000), (''a'', 24000), (''a'', 30000), (''a'', 36000),
       (''a'', 42000), (''a'', 48000), (''a'', 54000)]", THEN conjunct2]
  note T5 = rate_limiter_windows [of Map.empty _ 10000 "[(''a'', 0), (''b'', 1), (''a'', 2000),
       (''a'', 4000), (''a'', 6000), (''a'', 8000)]", THEN conjunct2]
  have a: "fst (rateLimiter (served Map.empty [(''a'', 0), (''a'', 6000), (''a'', 12000), (''a'', 18000),
       (''a'', 24000), (''a'', 30000), (''a'', 36000), (''a'', 42000), (''a'', 48000),
       (''a'', 54000)]) ''a'' 60000) = Status429"
    using T10 [of 60000] unfolding not_Next [symmetric] by (simp add: admitted10 del: served.simps)
  have b: "fst (rateLimiter (served Map.empty [(''a'', 0), (''a'', 6000), (''a'', 12000), (''a'', 18000),
       (''a'', 24000), (''a'', 30000), (''a'', 36000), (''a'', 42000), (''a'', 48000),
       (''a'', 54000)]) ''a'' 60001) = Next"
    using T10 [of 60001] by (simp add: admitted10 del: served.simps)
  have c: "fst (rateLimiter (served Map.empty [(''a'', 0), (''b'', 1), (''a'', 2000), (''a'', 4000),
       (''a'', 6000), (''a'', 8000)]) ''a'' 10000) = Status429"
    using T5 [of "''a''"] unfolding not_Next [symmetric] by (simp add: admitted5 del: served.simps)
  have d: "fst (rateLimiter (served Map.empty [(''a'', 0), (''b'', 1), (''a'', 2000), (''a'', 4000),
       (''a'', 6000), (''a'', 8000)]) ''b'' 10000) = Next"
    using T5 [of "''b''"] by (simp add: admitted5 del: served.simps)
  show ?thesis using a b c d by (simp add: serve10 serve5 del: served.simps serve.simps)
qed

section \<open>The lookup pipeline: proofs\<close>

subsection \<open>What each callback changes\<close>

lemma afterFetch_fields:
  "queue (afterFetch s rid i out now) = queue s"
  "processing (afterFetch s rid i out now) = processing s"
  "sleeping (afterFetch s rid i out now) = sleeping s"
  "promises (afterFetch s rid i out now) = promises s"
  "nextPromise (afterFetch s rid i out now) = nextPromise s"
  "enqueued (afterFetch s rid i out now) = enqueued s"
  "executed (afterFetch s rid i out now) = executed s"
  "mockUsers (afterFetch s rid i out now) = mockUsers s"
  "rateLimitMap (afterFetch s rid i out now) = rateLimitMap s"
  "inFlightFetches (afterFetch s rid i out now) = (inFlightFetches s)(i := None)"
  "responses (afterFetch s rid i out now) = responses s @ [(rid, answer out)]"
  by (simp_all add: afterFetch_def respond_def answer_def Let_def
      split: outcome.splits option.splits)

lemma afterFetch_cache:
  "out = Value None \<or> (\<exists>err. out = Failure err)
   \<Longrightarrow> userCache (afterFetch s rid i out now) = userCache s"
  by (auto simp: afterFetch_def respond_def)

lemma pending_afterFetch: "pending (afterFetch s rid i out now) = pending s"
  by (simp add: pending_def afterFetch_fields)

lemma resume_fields:
  "queue (foldl (\<lambda>s w. afterFetch s (fst w) (snd w) out now) s ws) = queue s
   \<and> processing (foldl (\<lambda>s w. afterFetch s (fst w) (snd w) out now) s ws) = processing s
   \<and> sleeping (foldl (\<lambda>s w. afterFetch s (fst w) (snd w) out now) s ws) = sleeping s
   \<and> promises (foldl (\<lambda>s w. afterFetch s (fst w) (snd w) out now) s ws) = promises s
   \<and> nextPromise (foldl (\<lambda>s w. afterFetch s (fst w) (snd w) out now) s ws) = nextPromise s
   \<and> enqueued (foldl (\<lambda>s w. afterFetch s (fst w) (snd w) out now) s ws) = enqueued s
   \<and> executed (foldl (\<lambda>s w. afterFetch s (fst w) (snd w) out now) s ws) = executed s
   \<and> mockUsers (foldl (\<lambda>s w. afterFetch s (fst w) (snd w) out now) s ws) = mockUsers s
   \<and> rateLimitMap (foldl (\<lambda>s w. afterFetch s (fst w) (snd w) out now) s ws) = rateLimitMap s
   \<and> inFlightFetches (foldl (\<lambda>s w. afterFetch s (fst w) (snd w) out now) s ws)
       = (\<lambda>i. if i \<in> snd ` set ws then None else inFlightFetches s i)
   \<and> responses (foldl (\<lambda>s w. afterFetch s (fst w) (snd w) out now) s ws)
       = responses s @ map (\<lambda>w. (fst w, answer out)) ws"
proof (induction ws rule: rev_induct)
  case Nil
  then show ?case by simp
next
  case (snoc w ws)
  then show ?case by (auto simp: afterFetch_fields)
qed

lemma resume_cache:
  assumes "out = Value None \<or> (\<exists>err. out = Failure err)"
  shows "userCache (foldl (\<lambda>s w. afterFetch s (fst w) (snd w) out now) s ws) = userCache s"
  by (induction ws rule: rev_induct) (simp_all add: afterFetch_cache [OF assms])

lemma workerLoop_fields:
  "sleeping (workerLoop s) = sleeping s @ take 1 (queue s)"
  "queue (workerLoop s) = drop 1 (queue s)"
  "processing (workerLoop s) = (processing s \<and> queue s \<noteq> [])"
  "promises (workerLoop s) = promises s"
  "nextPromise (workerLoop s) = nextPromise s"
  "enqueued (workerLoop s) = enqueued s"
  "executed (workerLoop s) = executed s"
  "mockUsers (workerLoop s) = mockUsers s"
  "rateLimitMap (workerLoop s) = rateLimitMap s"
  "inFlightFetches (workerLoop s) = inFlightFetches s"
  "responses (workerLoop s) = responses s"
  "userCache (workerLoop s) = userCache s"
  by (simp_all add: workerLoop_def split: list.splits)

lemma dbTimer_idle: "sleeping s = [] \<Longrightarrow> dbTimer s now fault = s"
  by (simp add: dbTimer_def)

lemma resume_simps:
  "queue (foldl (\<lambda>t w. afterFetch t (fst w) (snd w) out now) s ws) = queue s"
  "processing (foldl (\<lambda>t w. afterFetch t (fst w) (snd w) out now) s ws) = processing s"
  "sleeping (foldl (\<lambda>t w. afterFetch t (fst w) (snd w) out now) s ws) = sleeping s"
  "promises (foldl (\<lambda>t w. afterFetch t (fst w) (snd w) out now) s ws) = promises s"
  "nextPromise (foldl (\<lambda>t w. afterFetch t (fst w) (snd w) out now) s ws) = nextPromise s"
  "enqueued (foldl (\<lambda>t w. afterFetch t (fst w) (snd w) out now) s ws) = enqueued s"
  "executed (foldl (\<lambda>t w. afterFetch t (fst w) (snd w) out now) s ws) = executed s"
  "mockUsers (foldl (\<lambda>t w. afterFetch t (fst w) (snd w) out now) s ws) = mockUsers s"
  "rateLimitMap (foldl (\<lambda>t w. afterFetch t (fst w) (snd w) out now) s ws) = rateLimitMap s"
  "inFlightFetches (foldl (\<lambda>t w. afterFetch t (fst w) (snd w) out now) s ws)
       = (\<lambda>i. if i \<in> snd ` set ws then None else inFlightFetches s i)"
  "responses (foldl (\<lambda>t w. afterFetch t (fst w) (snd w) out now) s ws)
       = responses s @ map (\<lambda>w. (fst w, answer out)) ws"
  using resume_fields [of out now s ws] by simp_all

lemma dbTimer_run:
  assumes sl: "sleeping s = job # others" and pr: "promises s (promise job) = Pending ws"
  shows "dbTimer s now fault =
     foldl (\<lambda>t w. afterFetch t (fst w) (snd w) (outcomeOf s job fault) now)
       (workerLoop (s\<lparr>sleeping := others, executed := executed s @ [(job, fault)],
          promises := (promises s)(promise job := Settled (outcomeOf s job fault))\<rparr>)) ws"
  using sl pr by (simp add: dbTimer_def settle_def Let_def)

lemma dbTimer_fields:
  assumes sl: "sleeping s = job # others" and pr: "promises s (promise job) = Pending ws"
  shows "sleeping (dbTimer s now fault) = others @ take 1 (queue s)"
    and "queue (dbTimer s now fault) = drop 1 (queue s)"
    and "processing (dbTimer s now fault) = (processing s \<and> queue s \<noteq> [])"
    and "executed (dbTimer s now fault) = executed s @ [(job, fault)]"
    and "enqueued (dbTimer s now fault) = enqueued s"
    and "nextPromise (dbTimer s now fault) = nextPromise s"
    and "mockUsers (dbTimer s now fault) = mockUsers s"
    and "rateLimitMap (dbTimer s now fault) = rateLimitMap s"
    and "promises (dbTimer s now fault)
          = (promises s)(promise job := Settled (outcomeOf s job fault))"
    and "inFlightFetches (dbTimer s now fault)
          = (\<lambda>i. if i \<in> snd ` set ws then None else inFlightFetches s i)"
    and "responses (dbTimer s now fault)
          = responses s @ map (\<lambda>w. (fst w, answer (outcomeOf s job fault))) ws"
  unfolding dbTimer_run [OF sl pr]
  by (simp_all add: resume_simps workerLoop_fields cong: if_cong)

lemma dbTimer_cache:
  assumes sl: "sleeping s = job # others" and pr: "promises s (promise job) = Pending ws"
    and out: "outcomeOf s job fault = Value None \<or> (\<exists>err. outcomeOf s job fault = Failure err)"
  shows "userCache (dbTimer s now fault) = userCache s"
  unfolding dbTimer_run [OF sl pr] by (simp add: resume_cache [OF out] workerLoop_fields)

lemma enqueue_fields:
  "sleeping (enqueue s job) = (if processing s then sleeping s else sleeping s @ take 1 (queue s @ [job]))"
  "queue (enqueue s job) = (if processing s then queue s @ [job] else drop 1 (queue s @ [job]))"
  "processing (enqueue s job) = True"
  "enqueued (enqueue s job) = enqueued s @ [job]"
  "executed (enqueue s job) = executed s"
  "promises (enqueue s job) = promises s"
  "nextPromise (enqueue s job) = nextPromise s"
  "mockUsers (enqueue s job) = mockUsers s"
  "rateLimitMap (enqueue s job) = rateLimitMap s"
  "inFlightFetches (enqueue s job) = inFlightFetches s"
  "responses (enqueue s job) = responses s"
  "userCache (enqueue s job) = userCache s"
  by (simp_all add: enqueue_def processNext_def workerLoop_fields)

lemma getUser_invalid:
  "parseUserId param = None \<Longrightarrow> getUser s rid param now = respond rid InvalidId s"
  by (simp add: getUser_def)

lemma getUser_hit:
  "parseUserId param = Some i \<Longrightarrow> fst (get (userCache s) (Key i) now) = Some u
   \<Longrightarrow> getUser s rid param now
       = respond rid (FromCache u) (s\<lparr>userCache := snd (get (userCache s) (Key i) now)\<rparr>)"
  by (simp add: getUser_def Let_def)

lemma getUser_join:
  "parseUserId param = Some i \<Longrightarrow> fst (get (userCache s) (Key i) now) = None
   \<Longrightarrow> inFlightFetches s i = Some p \<Longrightarrow> promises s p = Pending ws
   \<Longrightarrow> getUser s rid param now
       = s\<lparr>userCache := snd (get (userCache s) (Key i) now),
            promises := (promises s)(p := Pending (ws @ [(rid, i)]))\<rparr>"
  by (simp add: getUser_def Let_def await_def)

lemma getUser_fetch:
  assumes "parseUserId param = Some i" and "fst (get (userCache s) (Key i) now) = None"
    and "inFlightFetches s i = None"
  shows "getUser s rid param now
       = (enqueue (s\<lparr>userCache := snd (get (userCache s) (Key i) now),
                      nextPromise := nextPromise s + 1,
                      promises := (promises s)(nextPromise s := Pending [])\<rparr>)
            \<lparr>userId = i, promise = nextPromise s\<rparr>)
          \<lparr>inFlightFetches := (inFlightFetches s)(i \<mapsto> nextPromise s),
           promises := (promises s)(nextPromise s := Pending [(rid, i)])\<rparr>"
  using assms
  by (simp add: getUser_def Let_def await_def fetchUserFromDb_def enqueue_fields)

subsection \<open>The invariants\<close>

lemma same_control_pending: "same_control s s' \<Longrightarrow> pending s' = pending s"
  by (simp add: same_control_def pending_def)

lemma same_control_queue_inv: "same_control s s' \<Longrightarrow> queue_inv s \<Longrightarrow> queue_inv s'"
  by (simp add: queue_inv_def same_control_pending) (simp add: same_control_def)

lemma same_control_flight_inv: "same_control s s' \<Longrightarrow> flight_inv s \<Longrightarrow> flight_inv s'"
  by (simp add: flight_inv_def same_control_pending) (simp add: same_control_def)

lemma same_control_refl: "same_control s s"
  by (simp add: same_control_def)

lemma same_control_respond: "same_control s (respond rid r s)"
  by (simp add: same_control_def respond_def)

lemma same_control_trans: "same_control s t \<Longrightarrow> same_control t u \<Longrightarrow> same_control s u"
  by (simp add: same_control_def)

lemma same_control_cache: "same_control s (s\<lparr>userCache := c\<rparr>)"
  by (simp add: same_control_def)

lemma same_control_limit: "same_control s (s\<lparr>rateLimitMap := m\<rparr>)"
  by (simp add: same_control_def)

lemma same_control_postUser: "same_control s (postUser s rid bi bn be now)"
  by (simp add: same_control_def postUser_def respond_def Let_def
      split: option.splits)

lemma same_control_deleteCache: "same_control s (deleteCache s rid)"
  by (simp add: same_control_def deleteCache_def respond_def)

lemma same_control_purgeTick: "same_control s (purgeTick s now)"
  by (simp add: same_control_def purgeTick_def)

lemma queue_inv_dbTimer:
  assumes q: "queue_inv s" and f: "flight_inv s"
  shows "queue_inv (dbTimer s now fault)"
proof (cases "sleeping s")
  case Nil
  then show ?thesis using q by (simp add: dbTimer_idle)
next
  case (Cons job others)
  have others: "others = []" using q Cons by (simp add: queue_inv_def)
  have "job \<in> set (pending s)" by (simp add: pending_def Cons)
  then obtain ws where pr: "promises s (promise job) = Pending ws"
    using f unfolding flight_inv_def by blast
  note F = dbTimer_fields [OF Cons pr, of now fault]
  have p: "processing s" using q Cons by (simp add: queue_inv_def)
  have e: "enqueued s = map fst (executed s) @ job # queue s"
    using q by (simp add: queue_inv_def pending_def Cons others)
  show ?thesis
    unfolding queue_inv_def pending_def F
    using p e by (cases "queue s") (simp_all add: others)
qed

lemma flight_invD:
  assumes "flight_inv s" and "j \<in> set (pending s)"
  shows "promise j < nextPromise s"
    and "inFlightFetches s (userId j) = Some (promise j)"
    and "\<exists>ws. promises s (promise j) = Pending ws \<and> ws \<noteq> [] \<and> (\<forall>w\<in>set ws. snd w = userId j)"
  using assms unfolding flight_inv_def by blast+

lemma flight_inv_registered:
  assumes "flight_inv s" and "inFlightFetches s i = Some p"
  shows "\<exists>j\<in>set (pending s). userId j = i \<and> promise j = p"
  using assms unfolding flight_inv_def by blast

lemma flight_inv_same_promise:
  assumes "flight_inv s" and "j \<in> set (pending s)" and "j' \<in> set (pending s)"
    and "promise j = promise j'"
  shows "j = j'"
proof -
  have "inj_on promise (set (pending s))"
    using assms(1) by (simp add: flight_inv_def distinct_map)
  then show ?thesis using assms(2-4) by (auto dest: inj_onD)
qed

lemma flight_inv_same_user:
  assumes "flight_inv s" and "j \<in> set (pending s)" and "j' \<in> set (pending s)"
    and "userId j = userId j'"
  shows "j = j'"
proof -
  have "inj_on userId (set (pending s))"
    using assms(1) by (simp add: flight_inv_def distinct_map)
  then show ?thesis using assms(2-4) by (auto dest: inj_onD)
qed

lemma flight_inv_dbTimer:
  assumes q: "queue_inv s" and f: "flight_inv s"
  shows "flight_inv (dbTimer s now fault)"
proof (cases "sleeping s")
  case Nil
  then show ?thesis using f by (simp add: dbTimer_idle)
next
  case (Cons job others)
  have others: "others = []" using q Cons by (simp add: queue_inv_def)
  have pend: "pending s = job # queue s" by (simp add: pending_def Cons others)
  have jin: "job \<in> set (pending s)" by (simp add: pend)
  obtain ws where pr: "promises s (promise job) = Pending ws" and ne: "ws \<noteq> []"
    and wsu: "\<forall>w\<in>set ws. snd w = userId job"
    using flight_invD(3) [OF f jin] by blast
  note F = dbTimer_fields [OF Cons pr, of now fault]
  define s' where "s' = dbTimer s now fault"
  have pend': "pending s' = queue s"
    by (simp add: pending_def s'_def F others)
  have img: "snd ` set ws = {userId job}"
    using ne wsu by (cases ws) auto
  have d1: "distinct (map userId (job # queue s))" and d2: "distinct (map promise (job # queue s))"
    using f by (simp_all add: flight_inv_def pend)
  have rest: "promise j < nextPromise s'
      \<and> inFlightFetches s' (userId j) = Some (promise j)
      \<and> (\<exists>ws. promises s' (promise j) = Pending ws \<and> ws \<noteq> [] \<and> (\<forall>w\<in>set ws. snd w = userId j))"
    if j: "j \<in> set (queue s)" for j
  proof -
    have jp: "j \<in> set (pending s)" using j by (simp add: pend)
    have "userId job \<notin> set (map userId (queue s))" using d1 by simp
    moreover have "userId j \<in> set (map userId (queue s))" using j by simp
    ultimately have nu: "userId j \<noteq> userId job" by metis
    have "promise job \<notin> set (map promise (queue s))" using d2 by simp
    moreover have "promise j \<in> set (map promise (queue s))" using j by simp
    ultimately have np: "promise j \<noteq> promise job" by metis
    show ?thesis
      using flight_invD [OF f jp] nu np by (simp add: s'_def F img)
  qed
  have reg: "\<exists>j\<in>set (queue s). userId j = i \<and> promise j = p"
    if r: "inFlightFetches s' i = Some p" for i p
  proof -
    have ni: "i \<noteq> userId job" and old: "inFlightFetches s i = Some p"
      using r by (simp_all add: s'_def F img split: if_splits)
    obtain j where j: "j \<in> set (pending s)" "userId j = i" "promise j = p"
      using flight_inv_registered [OF f old] by blast
    then have "j \<noteq> job" using ni by auto
    then show ?thesis using j by (auto simp: pend)
  qed
  have "flight_inv s'"
    unfolding flight_inv_def pend'
    using d1 d2 rest reg by auto
  then show ?thesis by (simp add: s'_def)
qed

lemma getUser_fetch_fields:
  assumes "parseUserId param = Some i" and "fst (get (userCache s) (Key i) now) = None"
    and "inFlightFetches s i = None"
  shows "sleeping (getUser s rid param now)
           = (if processing s then sleeping s
              else sleeping s @ take 1 (queue s @ [\<lparr>userId = i, promise = nextPromise s\<rparr>]))"
    and "queue (getUser s rid param now)
           = (if processing s then queue s @ [\<lparr>userId = i, promise = nextPromise s\<rparr>]
              else drop 1 (queue s @ [\<lparr>userId = i, promise = nextPromise s\<rparr>]))"
    and "processing (getUser s rid param now) = True"
    and "enqueued (getUser s rid param now)
           = enqueued s @ [\<lparr>userId = i, promise = nextPromise s\<rparr>]"
    and "executed (getUser s rid param now) = executed s"
    and "nextPromise (getUser s rid param now) = nextPromise s + 1"
    and "promises (getUser s rid param now) = (promises s)(nextPromise s := Pending [(rid, i)])"
    and "inFlightFetches (getUser s rid param now) = (inFlightFetches s)(i \<mapsto> nextPromise s)"
    and "responses (getUser s rid param now) = responses s"
    and "mockUsers (getUser s rid param now) = mockUsers s"
  unfolding getUser_fetch [OF assms] by (simp_all add: enqueue_fields)

lemma getUser_fetch_pending:
  assumes "parseUserId param = Some i" and "fst (get (userCache s) (Key i) now) = None"
    and "inFlightFetches s i = None" and q: "queue_inv s"
  shows "pending (getUser s rid param now) = pending s @ [\<lparr>userId = i, promise = nextPromise s\<rparr>]"
proof (cases "processing s")
  case True
  then show ?thesis
    by (simp add: pending_def getUser_fetch_fields [OF assms(1-3)])
next
  case False
  then have "sleeping s = []" and "queue s = []" using q by (simp_all add: queue_inv_def)
  then show ?thesis
    using False by (simp add: pending_def getUser_fetch_fields [OF assms(1-3)])
qed

lemma flight_inv_pending_promise:
  assumes f: "flight_inv s" and r: "inFlightFetches s i = Some p"
  shows "\<exists>ws. promises s p = Pending ws \<and> ws \<noteq> [] \<and> (\<forall>w\<in>set ws. snd w = i)"
proof -
  obtain j where j: "j \<in> set (pending s)" "userId j = i" "promise j = p"
    using flight_inv_registered [OF f r] by blast
  show ?thesis using flight_invD(3) [OF f j(1)] j(2,3) by simp
qed

lemma queue_inv_getUser:
  assumes q: "queue_inv s" and f: "flight_inv s"
  shows "queue_inv (getUser s rid param now)"
proof (cases "parseUserId param")
  case None
  then show ?thesis
    using q by (simp add: getUser_invalid same_control_queue_inv [OF same_control_respond])
next
  case (Some i)
  show ?thesis
  proof (cases "fst (get (userCache s) (Key i) now)")
    case hit: (Some u)
    have "same_control s (respond rid (FromCache u) (s\<lparr>userCache := snd (get (userCache s) (Key i) now)\<rparr>))"
      by (rule same_control_trans [OF same_control_cache same_control_respond])
    then show ?thesis
      using q by (simp add: getUser_hit [OF Some hit] same_control_queue_inv)
  next
    case miss: None
    show ?thesis
    proof (cases "inFlightFetches s i")
      case reg: (Some p)
      obtain ws where pr: "promises s p = Pending ws"
        using flight_inv_pending_promise [OF f reg] by blast
      show ?thesis
        using q unfolding getUser_join [OF Some miss reg pr]
        by (simp add: queue_inv_def pending_def)
    next
      case None
      note F = getUser_fetch_fields [OF Some miss None, of rid]
      note P = getUser_fetch_pending [OF Some miss None q, of rid]
      show ?thesis
      proof (cases "processing s")
        case True
        then show ?thesis
          using q unfolding queue_inv_def P by (simp add: F)
      next
        case False
        then have "sleeping s = []" and "queue s = []" using q by (simp_all add: queue_inv_def)
        then show ?thesis
          using q False unfolding queue_inv_def P by (simp add: F)
      qed
    qed
  qed
qed

lemma flight_inv_join:
  assumes f: "flight_inv s" and reg: "inFlightFetches s i = Some p"
    and pr: "promises s p = Pending ws"
  shows "flight_inv (s\<lparr>userCache := c, promises := (promises s)(p := Pending (ws @ [(rid, i)]))\<rparr>)"
proof -
  define s' where "s' = s\<lparr>userCache := c, promises := (promises s)(p := Pending (ws @ [(rid, i)]))\<rparr>"
  have pend: "pending s' = pending s" by (simp add: s'_def pending_def)
  obtain j0 where j0: "j0 \<in> set (pending s)" "userId j0 = i" "promise j0 = p"
    using flight_inv_registered [OF f reg] by blast
  have wsi: "\<forall>w\<in>set ws. snd w = i"
    using flight_inv_pending_promise [OF f reg] pr by simp
  have each: "promise j < nextPromise s'
      \<and> inFlightFetches s' (userId j) = Some (promise j)
      \<and> (\<exists>ws. promises s' (promise j) = Pending ws \<and> ws \<noteq> [] \<and> (\<forall>w\<in>set ws. snd w = userId j))"
    if j: "j \<in> set (pending s)" for j
  proof (cases "promise j = p")
    case True
    then have "j = j0" using flight_inv_same_promise [OF f j j0(1)] j0(3) by simp
    then have "userId j = i" using j0(2) by simp
    then show ?thesis
      using flight_invD(1,2) [OF f j] True wsi by (simp add: s'_def)
  next
    case False
    then show ?thesis
      using flight_invD [OF f j] by (simp add: s'_def)
  qed
  have reg': "\<exists>j\<in>set (pending s). userId j = i' \<and> promise j = p'"
    if "inFlightFetches s' i' = Some p'" for i' p'
    using that flight_inv_registered [OF f, of i' p'] by (simp add: s'_def)
  have "flight_inv s'"
    unfolding flight_inv_def pend
    using f each reg' by (simp add: flight_inv_def)
  then show ?thesis by (simp add: s'_def)
qed

lemma flight_inv_getUser:
  assumes q: "queue_inv s" and f: "flight_inv s"
  shows "flight_inv (getUser s rid param now)"
proof (cases "parseUserId param")
  case None
  then show ?thesis
    using f by (simp add: getUser_invalid same_control_flight_inv [OF same_control_respond])
next
  case (Some i)
  show ?thesis
  proof (cases "fst (get (userCache s) (Key i) now)")
    case hit: (Some u)
    have "same_control s (respond rid (FromCache u) (s\<lparr>userCache := snd (get (userCache s) (Key i) now)\<rparr>))"
      by (rule same_control_trans [OF same_control_cache same_control_respond])
    then show ?thesis
      using f by (simp add: getUser_hit [OF Some hit] same_control_flight_inv)
  next
    case miss: None
    show ?thesis
    proof (cases "inFlightFetches s i")
      case reg: (Some p)
      obtain ws where pr: "promises s p = Pending ws"
        using flight_inv_pending_promise [OF f reg] by blast
      show ?thesis
        unfolding getUser_join [OF Some miss reg pr]
        using f reg pr by (rule flight_inv_join)
    next
      case None
      define s' where "s' = getUser s rid param now"
      define job where "job = \<lparr>userId = i, promise = nextPromise s\<rparr>"
      note F = getUser_fetch_fields [OF Some miss None, of rid, folded s'_def job_def]
      have P: "pending s' = pending s @ [job]"
        using getUser_fetch_pending [OF Some miss None q, of rid] by (simp add: s'_def job_def)
      have nu: "userId j \<noteq> i" and np: "promise j \<noteq> nextPromise s"
        if j: "j \<in> set (pending s)" for j
        using flight_invD(1,2) [OF f j] None by auto
      have d1: "distinct (map userId (pending s @ [job]))"
        and d2: "distinct (map promise (pending s @ [job]))"
        using f nu np by (auto simp: flight_inv_def job_def)
      have each: "promise j < nextPromise s'
          \<and> inFlightFetches s' (userId j) = Some (promise j)
          \<and> (\<exists>ws. promises s' (promise j) = Pending ws \<and> ws \<noteq> [] \<and> (\<forall>w\<in>set ws. snd w = userId j))"
        if j: "j \<in> set (pending s @ [job])" for j
      proof (cases "j = job")
        case True
        then show ?thesis by (simp add: F job_def)
      next
        case False
        then have jp: "j \<in> set (pending s)" using j by simp
        show ?thesis
          using flight_invD [OF f jp] nu [OF jp] np [OF jp] by (simp add: F)
      qed
      have reg': "\<exists>j\<in>set (pending s @ [job]). userId j = i' \<and> promise j = p'"
        if r: "inFlightFetches s' i' = Some p'" for i' p'
      proof (cases "i' = i")
        case True
        then have "p' = nextPromise s" using r by (simp add: F)
        then show ?thesis using True by (simp add: job_def)
      next
        case False
        then have "inFlightFetches s i' = Some p'" using r by (simp add: F)
        then show ?thesis using flight_inv_registered [OF f] by auto
      qed
      have "flight_inv s'"
        unfolding flight_inv_def P using d1 d2 each reg' by blast
      then show ?thesis by (simp add: s'_def)
    qed
  qed
qed

lemma inv_route:
  assumes "queue_inv s" and "flight_inv s"
  shows "queue_inv (route s rid req now) \<and> flight_inv (route s rid req now)"
proof (cases req)
  case (GetUser param)
  then show ?thesis
    using assms by (simp add: route_def queue_inv_getUser flight_inv_getUser)
next
  case (PostUser bi bn be)
  then show ?thesis
    using assms same_control_postUser [of s rid bi bn be now]
    by (simp add: route_def same_control_queue_inv same_control_flight_inv)
next
  case DeleteCache
  then show ?thesis
    using assms same_control_deleteCache [of s rid]
    by (simp add: route_def same_control_queue_inv same_control_flight_inv)
qed

lemma inv_handle:
  assumes q: "queue_inv s" and f: "flight_inv s"
  shows "queue_inv (handle s ev) \<and> flight_inv (handle s ev)"
proof (cases ev)
  case (Http rid ip req now)
  define t where "t = s\<lparr>rateLimitMap := snd (rateLimiter (rateLimitMap s) ip now)\<rparr>"
  have sc: "same_control s t" unfolding t_def by (rule same_control_limit)
  have qt: "queue_inv t" and ft: "flight_inv t"
    using sc q f by (auto intro: same_control_queue_inv same_control_flight_inv)
  show ?thesis
  proof (cases "fst (rateLimiter (rateLimitMap s) ip now)")
    case Next
    then have "handle s ev = route t rid req now"
      by (simp add: Http t_def Let_def)
    then show ?thesis using inv_route [OF qt ft] by simp
  next
    case Status429
    then have "handle s ev = respond rid RateLimited t"
      by (simp add: Http t_def Let_def)
    then show ?thesis
      using qt ft same_control_respond [of t rid RateLimited]
      by (simp add: same_control_queue_inv same_control_flight_inv)
  qed
next
  case (DbTimer now fault)
  then show ?thesis using q f by (simp add: queue_inv_dbTimer flight_inv_dbTimer)
next
  case (PurgeTick now)
  then show ?thesis
    using q f same_control_purgeTick [of s now]
    by (simp add: same_control_queue_inv same_control_flight_inv)
qed

lemma inv_init: "queue_inv (init users) \<and> flight_inv (init users)"
  by (simp add: queue_inv_def flight_inv_def init_def pending_def)

lemma exec_snoc: "exec s (evs @ [ev]) = handle (exec s evs) ev"
  by (simp add: exec_def)

lemma exec_Nil: "exec s [] = s"
  by (simp add: exec_def)


lemma inv_exec:
  assumes "queue_inv s" and "flight_inv s"
  shows "queue_inv (exec s evs) \<and> flight_inv (exec s evs)"
proof (induction evs rule: rev_induct)
  case Nil
  then show ?case using assms by (simp add: exec_Nil)
next
  case (snoc ev evs)
  then show ?case by (simp add: exec_snoc inv_handle)
qed

lemma inv_reachable: "queue_inv (exec (init users) evs) \<and> flight_inv (exec (init users) evs)"
  using inv_init by (intro inv_exec) simp_all

subsection \<open>The queue\<close>



subsection \<open>Single flight\<close>

lemma get_miss_absent:
  "fst (get c i now) = None \<Longrightarrow> Map_get (map' (snd (get c i now))) i = None"
proof (cases "Map_get (map' c) i")
  case None
  then show ?thesis by (simp add: get_absent)
next
  case (Some e)
  assume miss: "fst (get c i now) = None"
  have st: "expiresAt e \<le> now"
    using miss get_live [OF Some, of now] by (cases "expiresAt e \<le> now") simp_all
  show ?thesis
    by (simp add: get_stale [OF Some st] Map_get_None Map_delete_absent)
qed

lemma get_absent_miss: "Map_get (map' c) i = None \<Longrightarrow> fst (get c i now) = None"
  by (simp add: get_absent)

lemma parse_positive: "0 < i \<Longrightarrow> parseUserId (Some i) = Some i"
  by (simp add: parseUserId_def)

lemma lookups_Nil: "lookups s i [] = s"
  by (simp add: lookups_def)

lemma lookups_Cons: "lookups s i (a # as) = lookups (getUser s (fst a) (Some i) (snd a)) i as"
  by (simp add: lookups_def)

lemma lookups_join:
  assumes "0 < i" and "inFlightFetches s i = Some p" and "promises s p = Pending ws"
    and "Map_get (map' (userCache s)) (Key i) = None"
  shows "enqueued (lookups s i as) = enqueued s
    \<and> promises (lookups s i as) p = Pending (ws @ map (\<lambda>a. (fst a, i)) as)
    \<and> inFlightFetches (lookups s i as) i = Some p"
  using assms(2-4)
proof (induction as arbitrary: s ws)
  case Nil
  then show ?case by (simp add: lookups_Nil)
next
  case (Cons a as)
  have miss: "fst (get (userCache s) (Key i) (snd a)) = None"
    using Cons.prems(3) by (rule get_absent_miss)
  define s' where "s' = getUser s (fst a) (Some i) (snd a)"
  have s': "s' = s\<lparr>userCache := snd (get (userCache s) (Key i) (snd a)),
            promises := (promises s)(p := Pending (ws @ [(fst a, i)]))\<rparr>"
    unfolding s'_def
    using parse_positive [OF assms(1)] miss Cons.prems(1,2) by (rule getUser_join)
  have 1: "inFlightFetches s' i = Some p" using Cons.prems(1) by (simp add: s')
  have 2: "promises s' p = Pending (ws @ [(fst a, i)])" by (simp add: s')
  have 3: "Map_get (map' (userCache s')) (Key i) = None"
    using get_miss_absent [OF miss] by (simp add: s')
  show ?case
    using Cons.IH [OF 1 2 3] by (simp add: lookups_Cons s'_def [symmetric]) (simp add: s')
qed

lemma lookups_fetch:
  assumes pos: "0 < i" and ne: "as \<noteq> []" and reg: "inFlightFetches s i = None"
    and miss: "fst (get (userCache s) (Key i) (snd (hd as))) = None"
  shows "enqueued (lookups s i as) = enqueued s @ [\<lparr>userId = i, promise = nextPromise s\<rparr>]
    \<and> promises (lookups s i as) (nextPromise s) = Pending (map (\<lambda>a. (fst a, i)) as)
    \<and> inFlightFetches (lookups s i as) i = Some (nextPromise s)"
proof -
  obtain a rest where as: "as = a # rest" using ne by (cases as) auto
  have m: "fst (get (userCache s) (Key i) (snd a)) = None" using miss by (simp add: as)
  define s' where "s' = getUser s (fst a) (Some i) (snd a)"
  note F = getUser_fetch_fields [OF parse_positive [OF pos] m reg, of "fst a", folded s'_def]
  have c: "userCache s' = snd (get (userCache s) (Key i) (snd a))"
    unfolding s'_def getUser_fetch [OF parse_positive [OF pos] m reg]
    by (simp add: enqueue_fields)
  have 1: "inFlightFetches s' i = Some (nextPromise s)" by (simp add: F)
  have 2: "promises s' (nextPromise s) = Pending [(fst a, i)]" by (simp add: F)
  have 3: "Map_get (map' (userCache s')) (Key i) = None"
    using get_miss_absent [OF m] by (simp add: c)
  show ?thesis
    using lookups_join [OF pos 1 2 3, of rest]
    by (simp add: as lookups_Cons s'_def [symmetric] F)
qed

lemma distinct_map_head:
  assumes "distinct (map f (x # xs))" and "y \<in> set xs"
  shows "f y \<noteq> f x"
proof -
  have "f x \<notin> set (map f xs)" using assms(1) by simp
  moreover have "f y \<in> set (map f xs)" using assms(2) by simp
  ultimately show ?thesis by metis
qed

lemma same_control_promises: "same_control s s' \<Longrightarrow> promises s' = promises s"
  by (simp add: same_control_def)

lemma waiters_kept_getUser:
  assumes f: "flight_inv s" and j: "j \<in> set (pending s)"
  shows "\<exists>ws ws'. promises s (promise j) = Pending ws
           \<and> promises (getUser s rid param now) (promise j) = Pending (ws @ ws')"
proof -
  obtain ws where ws: "promises s (promise j) = Pending ws"
    using flight_invD(3) [OF f j] by blast
  have same: ?thesis if "promises (getUser s rid param now) = promises s"
    using that ws by (intro exI [of _ ws] exI [of _ "[]"]) simp
  show ?thesis
  proof (cases "parseUserId param")
    case None
    then show ?thesis
      by (intro same) (simp add: getUser_invalid respond_def)
  next
    case (Some i)
    show ?thesis
    proof (cases "fst (get (userCache s) (Key i) now)")
      case hit: (Some u)
      show ?thesis
        by (intro same) (simp add: getUser_hit [OF Some hit] respond_def)
    next
      case miss: None
      show ?thesis
      proof (cases "inFlightFetches s i")
        case reg: (Some p)
        obtain wp where pr: "promises s p = Pending wp"
          using flight_inv_pending_promise [OF f reg] by blast
        show ?thesis
        proof (cases "promise j = p")
          case True
          then show ?thesis
            using ws pr unfolding getUser_join [OF Some miss reg pr]
            by (intro exI [of _ ws] exI [of _ "[(rid, i)]"]) simp
        next
          case False
          then show ?thesis
            using ws unfolding getUser_join [OF Some miss reg pr]
            by (intro exI [of _ ws] exI [of _ "[]"]) simp
        qed
      next
        case None
        have "promise j \<noteq> nextPromise s" using flight_invD(1) [OF f j] by simp
        then show ?thesis
          using ws
          by (intro exI [of _ ws] exI [of _ "[]"])
            (simp add: getUser_fetch_fields [OF Some miss None])
      qed
    qed
  qed
qed

lemma waiters_kept:
  assumes q: "queue_inv s" and f: "flight_inv s"
    and j: "j \<in> set (pending s)" and j': "j \<in> set (pending (handle s ev))"
  shows "\<exists>ws ws'. promises s (promise j) = Pending ws
           \<and> promises (handle s ev) (promise j) = Pending (ws @ ws')"
proof -
  obtain ws where ws: "promises s (promise j) = Pending ws"
    using flight_invD(3) [OF f j] by blast
  have same: ?thesis if "promises (handle s ev) = promises s"
    using that ws by (intro exI [of _ ws] exI [of _ "[]"]) simp
  show ?thesis
  proof (cases ev)
    case (Http rid ip req now)
    define t where "t = s\<lparr>rateLimitMap := snd (rateLimiter (rateLimitMap s) ip now)\<rparr>"
    have sc: "same_control s t" unfolding t_def by (rule same_control_limit)
    have ft: "flight_inv t" using sc f by (rule same_control_flight_inv)
    have jt: "j \<in> set (pending t)" using j by (simp add: same_control_pending [OF sc])
    have pt: "promises t = promises s" using sc by (rule same_control_promises)
    show ?thesis
    proof (cases "fst (rateLimiter (rateLimitMap s) ip now)")
      case Status429
      then have "handle s ev = respond rid RateLimited t"
        by (simp add: Http t_def Let_def)
      then show ?thesis by (intro same) (simp add: respond_def pt)
    next
      case Next
      then have h: "handle s ev = route t rid req now"
        by (simp add: Http t_def Let_def)
      show ?thesis
      proof (cases req)
        case (GetUser param)
        then show ?thesis
          using waiters_kept_getUser [OF ft jt, of rid param now]
          by (simp add: h route_def pt)
      next
        case (PostUser bi bn be)
        then show ?thesis
          using same_control_promises [OF same_control_postUser [of t rid bi bn be now]]
          by (intro same) (simp add: h route_def pt)
      next
        case DeleteCache
        then show ?thesis
          using same_control_promises [OF same_control_deleteCache [of t rid]]
          by (intro same) (simp add: h route_def pt)
      qed
    qed
  next
    case (DbTimer now fault)
    show ?thesis
    proof (cases "sleeping s")
      case Nil
      then show ?thesis by (intro same) (simp add: DbTimer dbTimer_idle)
    next
      case (Cons job others)
      have others: "others = []" using q Cons by (simp add: queue_inv_def)
      have pend: "pending s = job # queue s" by (simp add: pending_def Cons others)
      obtain wj where pr: "promises s (promise job) = Pending wj"
        using flight_invD(3) [OF f, of job] by (auto simp: pend)
      note F = dbTimer_fields [OF Cons pr, of now fault]
      have jq: "j \<in> set (queue s)"
        using j' by (simp add: DbTimer pending_def F others)
      have "distinct (map promise (job # queue s))"
        using f by (simp add: flight_inv_def pend)
      then have "promise j \<noteq> promise job" using jq by (rule distinct_map_head)
      then show ?thesis
        using ws by (intro exI [of _ ws] exI [of _ "[]"]) (simp add: DbTimer F)
    qed
  next
    case (PurgeTick now)
    then show ?thesis
      using same_control_promises [OF same_control_purgeTick [of s now]]
      by (intro same) simp
  qed
qed

lemma lookups_join_miss:
  assumes pos: "0 < i" and ne: "as \<noteq> []" and reg: "inFlightFetches s i = Some p"
    and pr: "promises s p = Pending ws"
    and miss: "fst (get (userCache s) (Key i) (snd (hd as))) = None"
  shows "enqueued (lookups s i as) = enqueued s
    \<and> promises (lookups s i as) p = Pending (ws @ map (\<lambda>a. (fst a, i)) as)
    \<and> inFlightFetches (lookups s i as) i = Some p"
proof -
  obtain a rest where as: "as = a # rest" using ne by (cases as) auto
  have m: "fst (get (userCache s) (Key i) (snd a)) = None" using miss by (simp add: as)
  define s' where "s' = getUser s (fst a) (Some i) (snd a)"
  have s': "s' = s\<lparr>userCache := snd (get (userCache s) (Key i) (snd a)),
            promises := (promises s)(p := Pending (ws @ [(fst a, i)]))\<rparr>"
    unfolding s'_def using parse_positive [OF pos] m reg pr by (rule getUser_join)
  have 1: "inFlightFetches s' i = Some p" using reg by (simp add: s')
  have 2: "promises s' p = Pending (ws @ [(fst a, i)])" by (simp add: s')
  have 3: "Map_get (map' (userCache s')) (Key i) = None"
    using get_miss_absent [OF m] by (simp add: s')
  show ?thesis
    using lookups_join [OF pos 1 2 3, of rest]
    by (simp add: as lookups_Cons s'_def [symmetric]) (simp add: s')
qed

lemma completion:
  assumes q: "queue_inv s" and f: "flight_inv s" and sl: "sleeping s = [job]"
  shows "\<exists>ws. promises s (promise job) = Pending ws \<and> ws \<noteq> []
      \<and> (\<forall>w\<in>set ws. snd w = userId job)
      \<and> responses (dbTimer s now fault)
          = responses s @ map (\<lambda>w. (fst w, answer (outcomeOf s job fault))) ws
      \<and> inFlightFetches (dbTimer s now fault) (userId job) = None"
proof -
  have "job \<in> set (pending s)" by (simp add: pending_def sl)
  then obtain ws where pr: "promises s (promise job) = Pending ws" and ne: "ws \<noteq> []"
    and wsu: "\<forall>w\<in>set ws. snd w = userId job"
    using flight_invD(3) [OF f] by blast
  note F = dbTimer_fields [OF sl pr, of now fault]
  have "snd ` set ws = {userId job}" using ne wsu by (cases ws) auto
  then have "inFlightFetches (dbTimer s now fault) (userId job) = None"
    by (simp add: F)
  then show ?thesis
    using pr ne wsu F(11) by blast
qed

text \<open>
  Claim C4. Node runs the handlers one at a time, so that lookups are concurrent when they
  arrive before the fetch they wait for has run. In every state the server reaches:
  no two unfinished fetch jobs are for the same key; lookups of a key that miss the
  cache while no fetch of the key is in flight submit exactly one job between them, and
  all of them wait for its promise; when a fetch of the key is in flight they submit
  none and join the waiters of its promise; no callback removes a waiter from a job that
  stays unfinished; and when the worker runs a job, every waiter of its promise is
  answered, all with the same answer (the user, not found, or the error), and the key
  leaves the in-flight registry.
\<close>

theorem single_flight:
  "distinct (map userId (pending (exec (init users) evs)))
   \<and> (\<forall>i as. 0 < i \<and> as \<noteq> [] \<and> inFlightFetches (exec (init users) evs) i = None
          \<and> fst (get (userCache (exec (init users) evs)) (Key i) (snd (hd as))) = None
        \<longrightarrow> enqueued (lookups (exec (init users) evs) i as)
              = enqueued (exec (init users) evs)
                  @ [\<lparr>userId = i, promise = nextPromise (exec (init users) evs)\<rparr>]
          \<and> promises (lookups (exec (init users) evs) i as) (nextPromise (exec (init users) evs))
              = Pending (map (\<lambda>a. (fst a, i)) as)
          \<and> inFlightFetches (lookups (exec (init users) evs) i as) i
              = Some (nextPromise (exec (init users) evs)))
   \<and> (\<forall>i as p. 0 < i \<and> as \<noteq> [] \<and> inFlightFetches (exec (init users) evs) i = Some p
          \<and> fst (get (userCache (exec (init users) evs)) (Key i) (snd (hd as))) = None
        \<longrightarrow> (\<exists>ws. promises (exec (init users) evs) p = Pending ws
              \<and> enqueued (lookups (exec (init users) evs) i as) = enqueued (exec (init users) evs)
              \<and> promises (lookups (exec (init users) evs) i as) p
                  = Pending (ws @ map (\<lambda>a. (fst a, i)) as)))
   \<and> (\<forall>ev j. j \<in> set (pending (exec (init users) evs))
          \<and> j \<in> set (pending (handle (exec (init users) evs) ev))
        \<longrightarrow> (\<exists>ws ws'. promises (exec (init users) evs) (promise j) = Pending ws
              \<and> promises (handle (exec (init users) evs) ev) (promise j) = Pending (ws @ ws')))
   \<and> (\<forall>now fault job. sleeping (exec (init users) evs) = [job]
        \<longrightarrow> (\<exists>ws. promises (exec (init users) evs) (promise job) = Pending ws \<and> ws \<noteq> []
              \<and> (\<forall>w\<in>set ws. snd w = userId job)
              \<and> responses (dbTimer (exec (init users) evs) now fault)
                  = responses (exec (init users) evs)
                      @ map (\<lambda>w. (fst w, answer (outcomeOf (exec (init users) evs) job fault))) ws
              \<and> inFlightFetches (dbTimer (exec (init users) evs) now fault) (userId job) = None))"
proof -
  define s where "s = exec (init users) evs"
  have q: "queue_inv s" and f: "flight_inv s"
    using inv_reachable [of users evs] by (simp_all add: s_def)
  have 1: "distinct (map userId (pending s))"
    using f by (simp add: flight_inv_def)
  have 2: "enqueued (lookups s i as) = enqueued s @ [\<lparr>userId = i, promise = nextPromise s\<rparr>]
          \<and> promises (lookups s i as) (nextPromise s) = Pending (map (\<lambda>a. (fst a, i)) as)
          \<and> inFlightFetches (lookups s i as) i = Some (nextPromise s)"
    if "0 < i \<and> as \<noteq> [] \<and> inFlightFetches s i = None
          \<and> fst (get (userCache s) (Key i) (snd (hd as))) = None" for i as
    using that by (intro lookups_fetch) simp_all
  have 3: "\<exists>ws. promises s p = Pending ws
              \<and> enqueued (lookups s i as) = enqueued s
              \<and> promises (lookups s i as) p = Pending (ws @ map (\<lambda>a. (fst a, i)) as)"
    if h: "0 < i \<and> as \<noteq> [] \<and> inFlightFetches s i = Some p
          \<and> fst (get (userCache s) (Key i) (snd (hd as))) = None" for i as p
  proof -
    obtain ws where pr: "promises s p = Pending ws"
      using flight_inv_pending_promise [OF f, of i p] h by blast
    have h1: "0 < i" and h2: "as \<noteq> []" and h3: "inFlightFetches s i = Some p"
      and h4: "fst (get (userCache s) (Key i) (snd (hd as))) = None"
      using h by simp_all
    show ?thesis
      using lookups_join_miss [OF h1 h2 h3 pr h4] pr by (intro exI [of _ ws]) simp

  qed
  have 4: "\<exists>ws ws'. promises s (promise j) = Pending ws
              \<and> promises (handle s ev) (promise j) = Pending (ws @ ws')"
    if "j \<in> set (pending s) \<and> j \<in> set (pending (handle s ev))" for ev j
    using that by (intro waiters_kept [OF q f]) simp_all
  have 5: "\<exists>ws. promises s (promise job) = Pending ws \<and> ws \<noteq> []
              \<and> (\<forall>w\<in>set ws. snd w = userId job)
              \<and> responses (dbTimer s now fault)
                  = responses s @ map (\<lambda>w. (fst w, answer (outcomeOf s job fault))) ws
              \<and> inFlightFetches (dbTimer s now fault) (userId job) = None"
    if "sleeping s = [job]" for now fault job
    using that by (rule completion [OF q f])
  show ?thesis
    unfolding s_def [symmetric] using 1 2 3 4 5 by blast
qed

text \<open>
  Claim C9. When the worker runs a job whose key has no user in the table, every lookup
  that waited for it is answered not-found, the cache is left exactly as it was, and the
  key leaves the in-flight registry.
\<close>

theorem not_found_not_cached:
  "sleeping (exec (init users) evs) = [job]
   \<and> mockUsers (exec (init users) evs) (userId job) = None
   \<longrightarrow> userCache (dbTimer (exec (init users) evs) now None) = userCache (exec (init users) evs)
     \<and> (\<exists>ws. promises (exec (init users) evs) (promise job) = Pending ws \<and> ws \<noteq> []
          \<and> responses (dbTimer (exec (init users) evs) now None)
              = responses (exec (init users) evs) @ map (\<lambda>w. (fst w, NotFound)) ws)
     \<and> inFlightFetches (dbTimer (exec (init users) evs) now None) (userId job) = None"
proof (intro impI)
  define s where "s = exec (init users) evs"
  assume "sleeping (exec (init users) evs) = [job]
    \<and> mockUsers (exec (init users) evs) (userId job) = None"
  then have sl: "sleeping s = [job]" and nf: "mockUsers s (userId job) = None"
    by (simp_all add: s_def)
  have q: "queue_inv s" and f: "flight_inv s"
    using inv_reachable [of users evs] by (simp_all add: s_def)
  have out: "outcomeOf s job None = Value None" using nf by (simp add: outcomeOf_def)
  obtain ws where pr: "promises s (promise job) = Pending ws" and ne: "ws \<noteq> []"
    and resp: "responses (dbTimer s now None)
          = responses s @ map (\<lambda>w. (fst w, answer (outcomeOf s job None))) ws"
    and cl: "inFlightFetches (dbTimer s now None) (userId job) = None"
    using completion [OF q f sl, of now None] by blast
  have c: "userCache (dbTimer s now None) = userCache s"
    using sl pr by (rule dbTimer_cache) (simp add: out)
  have "responses (dbTimer s now None) = responses s @ map (\<lambda>w. (fst w, NotFound)) ws"
    using resp by (simp add: out answer_def)
  then show "userCache (dbTimer (exec (init users) evs) now None) = userCache (exec (init users) evs)
     \<and> (\<exists>ws. promises (exec (init users) evs) (promise job) = Pending ws \<and> ws \<noteq> []
          \<and> responses (dbTimer (exec (init users) evs) now None)
              = responses (exec (init users) evs) @ map (\<lambda>w. (fst w, NotFound)) ws)
     \<and> inFlightFetches (dbTimer (exec (init users) evs) now None) (userId job) = None"
    unfolding s_def [symmetric] using c pr ne cl by blast
qed

subsection \<open>Two runs\<close>

lemmas server_eval = exec_def init_def rateLimiter_def route_def getUser_def
  parseUserId_def get_def newCache_def Map_get_def fetchUserFromDb_def enqueue_def processNext_def
  workerLoop_def await_def pending_def Let_def CACHE_MAX_SIZE_def CACHE_TTL_MS_def
  MAX_PER_MINUTE_def BURST_PER_10_SECONDS_def



lemma run2:
  "sleeping (exec (init Map.empty)
      [Http 10 ''a'' (GetUser (Some 7)) 0, Http 11 ''b'' (GetUser (Some 7)) 5]) = [\<lparr>userId = 7, promise = 0\<rparr>]"
  "promises (exec (init Map.empty)
      [Http 10 ''a'' (GetUser (Some 7)) 0, Http 11 ''b'' (GetUser (Some 7)) 5]) 0 = Pending [(10, 7), (11, 7)]"
  "responses (exec (init Map.empty)
      [Http 10 ''a'' (GetUser (Some 7)) 0, Http 11 ''b'' (GetUser (Some 7)) 5]) = []"
  "mockUsers (exec (init Map.empty)
      [Http 10 ''a'' (GetUser (Some 7)) 0, Http 11 ''b'' (GetUser (Some 7)) 5]) 7 = None"
  "keys (userCache (exec (init Map.empty)
      [Http 10 ''a'' (GetUser (Some 7)) 0, Http 11 ''b'' (GetUser (Some 7)) 5])) = []"
  "enqueued (exec (init Map.empty)
      [Http 10 ''a'' (GetUser (Some 7)) 0, Http 11 ''b'' (GetUser (Some 7)) 5]) = [\<lparr>userId = 7, promise = 0\<rparr>]"
  "nextPromise (exec (init Map.empty)
      [Http 10 ''a'' (GetUser (Some 7)) 0, Http 11 ''b'' (GetUser (Some 7)) 5]) = 1"
  "inFlightFetches (exec (init Map.empty)
      [Http 10 ''a'' (GetUser (Some 7)) 0, Http 11 ''b'' (GetUser (Some 7)) 5]) 8 = None"
  "fst (get (userCache (exec (init Map.empty)
      [Http 10 ''a'' (GetUser (Some 7)) 0, Http 11 ''b'' (GetUser (Some 7)) 5])) (Key 8) 20) = None"
  by (simp_all add: server_eval keys_def Map_keys_def)

theorem not_found_not_cached_witness:
  "sleeping (exec (init Map.empty)
      [Http 10 ''a'' (GetUser (Some 7)) 0, Http 11 ''b'' (GetUser (Some 7)) 5]) = [\<lparr>userId = 7, promise = 0\<rparr>]
   \<and> mockUsers (exec (init Map.empty)
      [Http 10 ''a'' (GetUser (Some 7)) 0, Http 11 ''b'' (GetUser (Some 7)) 5]) 7 = None
   \<and> responses (dbTimer (exec (init Map.empty)
      [Http 10 ''a'' (GetUser (Some 7)) 0, Http 11 ''b'' (GetUser (Some 7)) 5]) 200 None)
       = [(10, NotFound), (11, NotFound)]
   \<and> keys (userCache (dbTimer (exec (init Map.empty)
      [Http 10 ''a'' (GetUser (Some 7)) 0, Http 11 ''b'' (GetUser (Some 7)) 5]) 200 None)) = []"
  using not_found_not_cached [of Map.empty "[Http 10 ''a'' (GetUser (Some 7)) 0,
      Http 11 ''b'' (GetUser (Some 7)) 5]" "\<lparr>userId = 7, promise = 0\<rparr>" 200]
  by (auto simp: run2)

theorem single_flight_witness:
  "enqueued (lookups (exec (init Map.empty)
      [Http 10 ''a'' (GetUser (Some 7)) 0, Http 11 ''b'' (GetUser (Some 7)) 5]) 8
        [(12, 20), (13, 21), (14, 22)])
     = [\<lparr>userId = 7, promise = 0\<rparr>, \<lparr>userId = 8, promise = 1\<rparr>]
   \<and> promises (lookups (exec (init Map.empty)
      [Http 10 ''a'' (GetUser (Some 7)) 0, Http 11 ''b'' (GetUser (Some 7)) 5]) 8
        [(12, 20), (13, 21), (14, 22)]) 1
     = Pending [(12, 8), (13, 8), (14, 8)]
   \<and> responses (dbTimer (exec (init Map.empty)
      [Http 10 ''a'' (GetUser (Some 7)) 0, Http 11 ''b'' (GetUser (Some 7)) 5]) 200
        (Some (Error ''db'')))
     = [(10, Unhandled (Error ''db'')), (11, Unhandled (Error ''db''))]"
proof -
  note T = single_flight [of Map.empty "[Http 10 ''a'' (GetUser (Some 7)) 0,
      Http 11 ''b'' (GetUser (Some 7)) 5]"]
  have a: "enqueued (lookups (exec (init Map.empty)
      [Http 10 ''a'' (GetUser (Some 7)) 0, Http 11 ''b'' (GetUser (Some 7)) 5]) 8
        [(12, 20), (13, 21), (14, 22)])
     = [\<lparr>userId = 7, promise = 0\<rparr>, \<lparr>userId = 8, promise = 1\<rparr>]
   \<and> promises (lookups (exec (init Map.empty)
      [Http 10 ''a'' (GetUser (Some 7)) 0, Http 11 ''b'' (GetUser (Some 7)) 5]) 8
        [(12, 20), (13, 21), (14, 22)]) 1
     = Pending [(12, 8), (13, 8), (14, 8)]"
    using T [THEN conjunct2, THEN conjunct1, THEN spec [of _ 8],
        THEN spec [of _ "[(12, 20), (13, 21), (14, 22)]"]]
    by (simp add: run2)
  have b: "responses (dbTimer (exec (init Map.empty)
      [Http 10 ''a'' (GetUser (Some 7)) 0, Http 11 ''b'' (GetUser (Some 7)) 5]) 200
        (Some (Error ''db'')))
     = [(10, Unhandled (Error ''db'')), (11, Unhandled (Error ''db''))]"
    using T [THEN conjunct2, THEN conjunct2, THEN conjunct2, THEN conjunct2,
        THEN spec [of _ 200], THEN spec [of _ "Some (Error ''db'')"],
        THEN spec [of _ "\<lparr>userId = 7, promise = 0\<rparr>"]]
    by (auto simp: run2 outcomeOf_def answer_def)
  show ?thesis using a b by simp
qed

end
